theory Spec2Isabelle
  imports Complex_Main "HOL-Library.Sublist"
begin

section \<open>Settings (app/config.py)\<close>

text \<open>
  The defaults of the \<open>Settings\<close> class that the controller and the detector read.
  The pixel coordinates, areas and pose components of the detector are modelled by reals,
  and its thresholds are compared as the real numbers their literals denote.
\<close>

definition HOME_MARKER_ID :: int where
  "HOME_MARKER_ID = 1"

definition TAKEOFF_HEIGHT :: real where
  "TAKEOFF_HEIGHT = 1"

section \<open>Frames and the detector (app/services/aruco.py)\<close>

text \<open>
  A frame stands for the image together with what the OpenCV calls of the detector return
  on it: its shape, and for each detected marker (in detection order) its identifier, the
  mean of its four corners (\<open>marker_corners[0].mean(axis=0)\<close>), the value of
  \<open>cv2.contourArea\<close> on its corners, and the translation (x, y, z) and rotation of the
  pose that \<open>estimatePoseSingleMarkers\<close> estimates for it.
\<close>

record marker =
  corner_mean :: "real \<times> real"
  contour_area :: real
  tvec :: "real \<times> real \<times> real"
  rvec :: "real \<times> real \<times> real"

text \<open>
  The Python values that \<open>tolist\<close> produces: floats and lists. The arrays \<open>rvec\<close> and
  \<open>tvec\<close> of \<open>estimatePoseSingleMarkers\<close> have one row per marker, each row holding one
  vector of three components; the detector passes the corners of one marker, so \<open>tvec[0]\<close>
  is an array of shape (1, 3) and \<open>tvec[0].tolist()\<close> a list that holds one list of three
  floats.
\<close>

datatype pyobj = PyFloat real | PyList "pyobj list"

definition tolist :: "real \<times> real \<times> real \<Rightarrow> pyobj" where
  "tolist v = (case v of (x, y, z) \<Rightarrow> PyList [PyList [PyFloat x, PyFloat y, PyFloat z]])"

record frame =
  shape0 :: nat
  shape1 :: nat
  detected :: "(int \<times> marker) list"

record alignment =
  distance_from_center :: real
  marker_size :: real
  translation :: pyobj
  rotation :: pyobj
  is_aligned :: bool

definition detect_markers :: "frame \<Rightarrow> int list \<times> marker list" where
  "detect_markers frame = (map fst (detected frame), map snd (detected frame))"

text \<open>\<open>list.index\<close>: the position of the first occurrence. Python raises ValueError when
  there is none; the detector calls it only after the membership test.\<close>

fun index :: "int list \<Rightarrow> int \<Rightarrow> nat" where
  "index [] x = 0"
| "index (y # ys) x = (if y = x then 0 else Suc (index ys x))"

text \<open>\<open>np.linalg.norm\<close> of the difference of two points of the image plane.\<close>

definition norm2 :: "real \<times> real \<Rightarrow> real \<times> real \<Rightarrow> real" where
  "norm2 p q = sqrt ((fst p - fst q)\<^sup>2 + (snd p - snd q)\<^sup>2)"

definition get_landing_alignment :: "frame \<Rightarrow> bool \<times> alignment option" where
  "get_landing_alignment frame =
     (case detect_markers frame of (ids, corners) \<Rightarrow>
        if HOME_MARKER_ID \<notin> set ids then (False, None)
        else
          let marker_idx = index ids HOME_MARKER_ID;
              marker_corners = corners ! marker_idx;
              marker_center = corner_mean marker_corners;
              frame_center = (real (shape1 frame) / 2, real (shape0 frame) / 2);
              distance = norm2 marker_center frame_center;
              size = contour_area marker_corners;
              size_threshold = real (shape0 frame) * real (shape1 frame) * 0.1;
              center_threshold = 50;
              aligned = (distance < center_threshold \<and> size > size_threshold)
          in (aligned,
              Some \<lparr> distance_from_center = distance, marker_size = size,
                     translation = tolist (tvec marker_corners),
                     rotation = tolist (rvec marker_corners),
                     is_aligned = aligned \<rparr>))"

section \<open>The drone link and the controller state (app/core/drone.py)\<close>

text \<open>
  A command sent to the drone is either a bare word (\<open>'takeoff'\<close>, \<open>'land'\<close>) or a word and
  an integer, the two fields of the f-strings \<open>f"{direction} {n}"\<close>.
\<close>

datatype command = Plain string | Arg string int

text \<open>
  The drone link is an external collaborator. Its answers are given by three feeds: the
  battery level of the k-th reading, the frame (or \<open>None\<close>) of the k-th frame request, and
  the acknowledgement of a command sent as the k-th one. The link counts the readings and
  logs the commands it was sent.
\<close>

record drone_link =
  battery_feed :: "nat \<Rightarrow> int"
  frame_feed :: "nat \<Rightarrow> frame option"
  ack_feed :: "nat \<Rightarrow> command \<Rightarrow> bool"
  battery_reads :: nat
  frame_reads :: nat
  sent :: "command list"

datatype error =
    AnotherMissionInProgress
  | UnknownLocation string
  | BatteryTooLow int
  | NoVideoFrame
  | CannotDetectHomeMarker
  | TakeoffFailed
  | FailedToReachHeight
  | PathCommandFailed command
  | NoVideoFrameForLanding
  | FailedToAlign
  | LandingFailed
  | KeyError string
  | IndexError
  | TypeError
  | MissionFailed error

text \<open>
  Subscription \<open>v[i]\<close> with a literal index 0 or 1: a list index out of range raises
  IndexError, and a float is not subscriptable.
\<close>

definition getitem :: "pyobj \<Rightarrow> nat \<Rightarrow> error + pyobj" where
  "getitem v i =
     (case v of
        PyFloat _ \<Rightarrow> Inl TypeError
      | PyList xs \<Rightarrow> if i < length xs then Inr (xs ! i) else Inl IndexError)"

text \<open>The values stored in the mission dictionary; \<open>PErr e\<close> stands for \<open>str(e)\<close>.\<close>

datatype pyval = PStr string | PFloat real | PErr error

type_synonym mission = "string \<rightharpoonup> pyval"

record controller =
  drone :: drone_link
  mission_in_progress :: bool
  current_mission :: "mission option"
  image_buffer :: "frame list"

definition get_battery :: "controller \<Rightarrow> int \<times> controller" where
  "get_battery s =
     (battery_feed (drone s) (battery_reads (drone s)),
      s\<lparr>drone := (drone s)\<lparr>battery_reads := Suc (battery_reads (drone s))\<rparr>\<rparr>)"

definition get_frame :: "controller \<Rightarrow> frame option \<times> controller" where
  "get_frame s =
     (frame_feed (drone s) (frame_reads (drone s)),
      s\<lparr>drone := (drone s)\<lparr>frame_reads := Suc (frame_reads (drone s))\<rparr>\<rparr>)"

definition send_command :: "command \<Rightarrow> controller \<Rightarrow> bool \<times> controller" where
  "send_command c s =
     (ack_feed (drone s) (length (sent (drone s))) c,
      s\<lparr>drone := (drone s)\<lparr>sent := sent (drone s) @ [c]\<rparr>\<rparr>)"

section \<open>The location table\<close>

text \<open>
  A movement command of a path. Its distance is a Python float, and the controller sends
  \<open>int(cmd['distance'] * 100)\<close>, a product and a truncation in double precision. That
  arithmetic is not modelled: a movement carries the integer \<open>centimetres\<close> that this
  expression evaluates to.
\<close>

record movement =
  direction :: string
  centimetres :: int
  delay :: "real option"

record capture_point =
  position :: "movement option"
  frames :: "int option"

text \<open>An entry of \<open>settings.locations\<close>: the three keys the controller reads, each possibly
  absent, and the names of any other keys of the entry.\<close>

record location =
  path :: "movement list option"
  capture_points :: "capture_point list option"
  return_path :: "movement list option"
  other_keys :: "string list"

type_synonym locations = "string \<rightharpoonup> location"

text \<open>\<open>not location_data\<close> holds of the empty dictionary.\<close>

definition falsy :: "location \<Rightarrow> bool" where
  "falsy loc \<longleftrightarrow> path loc = None \<and> capture_points loc = None \<and> return_path loc = None
     \<and> other_keys loc = []"

text \<open>\<open>int(x)\<close> truncates towards zero. It is applied to \<open>TAKEOFF_HEIGHT * 100\<close> only, a product
  that is exact in double precision.\<close>

definition py_int :: "real \<Rightarrow> int" where
  "py_int x = (if 0 \<le> x then \<lfloor>x\<rfloor> else \<lceil>x\<rceil>)"

section \<open>The mission pipeline\<close>

text \<open>\<open>asyncio.sleep\<close> changes nothing of the modelled state and is left out.\<close>

definition takeoff_sequence :: "controller \<Rightarrow> (error + unit) \<times> controller" where
  "takeoff_sequence s =
     (case get_battery s of (battery, s1) \<Rightarrow>
        if battery < 20 then (Inl (BatteryTooLow battery), s1)
        else
          (case get_frame s1 of
             (None, s2) \<Rightarrow> (Inl NoVideoFrame, s2)
           | (Some frame, s2) \<Rightarrow>
               (case snd (get_landing_alignment frame) of
                  None \<Rightarrow> (Inl CannotDetectHomeMarker, s2)
                | Some _ \<Rightarrow>
                    (case send_command (Plain ''takeoff'') s2 of (ok, s3) \<Rightarrow>
                       if \<not> ok then (Inl TakeoffFailed, s3)
                       else
                         (case send_command (Arg ''up'' (py_int (TAKEOFF_HEIGHT * 100))) s3 of
                            (ok', s4) \<Rightarrow>
                              if \<not> ok' then (Inl FailedToReachHeight, s4)
                              else (Inr (), s4))))))"

text \<open>The f-string \<open>f"{cmd['direction']} {int(cmd['distance'] * 100)}"\<close>, whose integer is
  the field \<open>centimetres\<close>.\<close>

definition command_of :: "movement \<Rightarrow> command" where
  "command_of cmd = Arg (direction cmd) (centimetres cmd)"

fun execute_path :: "movement list \<Rightarrow> controller \<Rightarrow> (error + unit) \<times> controller" where
  "execute_path [] s = (Inr (), s)"
| "execute_path (cmd # rest) s =
     (let command = command_of cmd
      in case send_command command s of (ok, s1) \<Rightarrow>
           if \<not> ok then (Inl (PathCommandFailed command), s1)
           else execute_path rest s1)"

text \<open>The inner loop \<open>for _ in range(frames_to_capture)\<close>.\<close>

fun capture_frames :: "nat \<Rightarrow> controller \<Rightarrow> controller" where
  "capture_frames 0 s = s"
| "capture_frames (Suc n) s =
     (case get_frame s of
        (None, s1) \<Rightarrow> capture_frames n s1
      | (Some frame, s1) \<Rightarrow> capture_frames n (s1\<lparr>image_buffer := image_buffer s1 @ [frame]\<rparr>))"

text \<open>The outer loop \<open>for point in capture_points\<close>; \<open>range(k)\<close> is empty for \<open>k \<le> 0\<close>.\<close>

fun capture_each :: "capture_point list \<Rightarrow> controller \<Rightarrow> (error + unit) \<times> controller" where
  "capture_each [] s = (Inr (), s)"
| "capture_each (point # rest) s =
     (case (case position point of
              Some p \<Rightarrow> execute_path [p] s
            | None \<Rightarrow> (Inr (), s)) of
        (Inl e, s1) \<Rightarrow> (Inl e, s1)
      | (Inr _, s1) \<Rightarrow>
          (let frames_to_capture = (case frames point of None \<Rightarrow> 1 | Some k \<Rightarrow> k)
           in capture_each rest (capture_frames (nat frames_to_capture) s1)))"

definition capture_location :: "capture_point list \<Rightarrow> controller \<Rightarrow> (error + unit) \<times> controller" where
  "capture_location points s = capture_each points (s\<lparr>image_buffer := []\<rparr>)"

text \<open>The adjustment made in a round whose frame was evaluated as not aligned: the block
  under \<open>if not aligned\<close>. It fails where reading the translation or taking an absolute
  value raises.\<close>

definition adjust :: "alignment option \<Rightarrow> controller \<Rightarrow> (error + unit) \<times> controller" where
  "adjust al s =
     (case al of
        None \<Rightarrow> (Inr (), s)
      | Some a \<Rightarrow>
          if distance_from_center a > 50 then
            (case getitem (translation a) 0 of
               Inl e \<Rightarrow> (Inl e, s)
             | Inr dx \<Rightarrow>
                 (case getitem (translation a) 1 of
                    Inl e \<Rightarrow> (Inl e, s)
                  | Inr dy \<Rightarrow>
                      (case dx of
                         PyList _ \<Rightarrow> (Inl TypeError, s)
                       | PyFloat x \<Rightarrow>
                           (let s1 = (if \<bar>x\<bar> > 0.2
                                      then snd (send_command
                                             (Arg (if x > 0 then ''right'' else ''left'') 20) s)
                                      else s)
                            in case dy of
                                 PyList _ \<Rightarrow> (Inl TypeError, s1)
                               | PyFloat y \<Rightarrow>
                                   (Inr (),
                                    if \<bar>y\<bar> > 0.2
                                    then snd (send_command
                                           (Arg (if y > 0 then ''forward'' else ''back'') 20) s1)
                                    else s1)))))
          else (Inr (), s))"

text \<open>One round of the alignment loop: the body of the \<open>while\<close>, returning the new value
  of \<open>aligned\<close>.\<close>

definition align_round :: "controller \<Rightarrow> (error + bool) \<times> controller" where
  "align_round s =
     (case get_frame s of
        (None, s1) \<Rightarrow> (Inl NoVideoFrameForLanding, s1)
      | (Some frame, s1) \<Rightarrow>
          (case get_landing_alignment frame of (aligned, al) \<Rightarrow>
             if \<not> aligned then
               (case adjust al s1 of
                  (Inl e, s2) \<Rightarrow> (Inl e, s2)
                | (Inr _, s2) \<Rightarrow> (Inr aligned, s2))
             else (Inr aligned, s1)))"

function align_loop :: "bool \<Rightarrow> nat \<Rightarrow> controller \<Rightarrow> (error + bool) \<times> controller" where
  "align_loop aligned attempts s =
     (if \<not> aligned \<and> attempts < 3 then
        (case align_round s of
           (Inl e, s1) \<Rightarrow> (Inl e, s1)
         | (Inr aligned', s1) \<Rightarrow> align_loop aligned' (attempts + 1) s1)
      else (Inr aligned, s))"
  by pat_completeness auto
termination
  by (relation "measure (\<lambda>(aligned, attempts, s). 3 - attempts)") auto

declare align_loop.simps [simp del]

definition return_home :: "locations \<Rightarrow> controller \<Rightarrow> (error + unit) \<times> controller" where
  "return_home locs s =
     (case locs ''home'' of
        None \<Rightarrow> (Inl (KeyError ''home''), s)
      | Some home \<Rightarrow>
          (case return_path home of
             None \<Rightarrow> (Inl (KeyError ''return_path''), s)
           | Some rp \<Rightarrow>
               (case execute_path rp s of
                  (Inl e, s1) \<Rightarrow> (Inl e, s1)
                | (Inr _, s1) \<Rightarrow>
                    (case align_loop False 0 s1 of
                       (Inl e, s2) \<Rightarrow> (Inl e, s2)
                     | (Inr aligned, s2) \<Rightarrow>
                         if \<not> aligned then (Inl FailedToAlign, s2)
                         else case send_command (Plain ''land'') s2 of (ok, s3) \<Rightarrow>
                           if \<not> ok then (Inl LandingFailed, s3) else (Inr (), s3)))))"

text \<open>The body of the \<open>try\<close> block up to the status update.\<close>

definition pipeline :: "locations \<Rightarrow> location \<Rightarrow> controller \<Rightarrow> (error + unit) \<times> controller" where
  "pipeline locs location_data s =
     (case takeoff_sequence s of
        (Inl e, s1) \<Rightarrow> (Inl e, s1)
      | (Inr _, s1) \<Rightarrow>
          (case path location_data of
             None \<Rightarrow> (Inl (KeyError ''path''), s1)
           | Some p \<Rightarrow>
               (case execute_path p s1 of
                  (Inl e, s2) \<Rightarrow> (Inl e, s2)
                | (Inr _, s2) \<Rightarrow>
                    (case capture_location
                            (case capture_points location_data of None \<Rightarrow> [] | Some ps \<Rightarrow> ps) s2 of
                       (Inl e, s3) \<Rightarrow> (Inl e, s3)
                     | (Inr _, s3) \<Rightarrow> return_home locs s3))))"

text \<open>\<open>self.current_mission[k] = v\<close>.\<close>

definition set_mission :: "string \<Rightarrow> pyval \<Rightarrow> controller \<Rightarrow> controller" where
  "set_mission k v s = s\<lparr>current_mission := map_option (\<lambda>m. m(k \<mapsto> v)) (current_mission s)\<rparr>"

text \<open>The dictionary that \<open>execute_mission\<close> stores when it accepts a mission.\<close>

definition new_mission :: "string \<Rightarrow> real \<Rightarrow> mission" where
  "new_mission location_id now =
     [''location_id'' \<mapsto> PStr location_id,
      ''start_time'' \<mapsto> PFloat now,
      ''status'' \<mapsto> PStr ''in_progress'']"

text \<open>
  \<open>execute_mission\<close>; \<open>now\<close> is the value of \<open>time.time()\<close> and \<open>locs\<close> the table that
  \<open>settings.locations\<close> loads. The \<open>finally\<close> clause clears the flag on both exits of the
  \<open>try\<close> block.
\<close>

definition execute_mission ::
  "locations \<Rightarrow> real \<Rightarrow> string \<Rightarrow> controller \<Rightarrow> (error + mission option) \<times> controller" where
  "execute_mission locs now location_id s =
     (if mission_in_progress s then (Inl AnotherMissionInProgress, s)
      else
        (case locs location_id of
           None \<Rightarrow> (Inl (UnknownLocation location_id), s)
         | Some location_data \<Rightarrow>
             if falsy location_data then (Inl (UnknownLocation location_id), s)
             else
               (let s0 = s\<lparr>mission_in_progress := True,
                           current_mission := Some (new_mission location_id now)\<rparr>
                in (case pipeline locs location_data s0 of
                      (Inr _, s1) \<Rightarrow>
                        (let s2 = set_mission ''status'' (PStr ''completed'') s1
                         in (Inr (current_mission s2), s2\<lparr>mission_in_progress := False\<rparr>))
                    | (Inl e, s1) \<Rightarrow>
                        (let s2 = set_mission ''error'' (PErr e)
                                    (set_mission ''status'' (PStr ''failed'') s1)
                         in (Inl (MissionFailed e), s2\<lparr>mission_in_progress := False\<rparr>))))))"

section \<open>Example inputs\<close>

text \<open>A 960 x 720 frame showing the home marker \<open>off\<close> pixels right of the frame centre,
  with the given contour area and translation.\<close>

definition home_frame :: "real \<Rightarrow> real \<Rightarrow> real \<times> real \<times> real \<Rightarrow> frame" where
  "home_frame off area t =
     \<lparr> shape0 = 720, shape1 = 960,
       detected = [(1, \<lparr> corner_mean = (480 + off, 360), contour_area = area,
                          tvec = t, rvec = (0, 0, 0) \<rparr>)] \<rparr>"

text \<open>A centred marker covering a quarter of the frame: aligned.\<close>

definition aligned_frame :: frame where
  "aligned_frame = home_frame 0 172800 (0, 0, 1)"

text \<open>A fresh link whose battery reads \<open>b\<close>, with the given frame and acknowledgement feeds,
  and an idle controller on it.\<close>

definition link :: "int \<Rightarrow> (nat \<Rightarrow> frame option) \<Rightarrow> (nat \<Rightarrow> command \<Rightarrow> bool) \<Rightarrow> drone_link" where
  "link b ff af =
     \<lparr> battery_feed = (\<lambda>_. b), frame_feed = ff, ack_feed = af,
       battery_reads = 0, frame_reads = 0, sent = [] \<rparr>"

definition idle :: "drone_link \<Rightarrow> controller" where
  "idle d = \<lparr> drone = d, mission_in_progress = False, current_mission = None,
              image_buffer = [] \<rparr>"

text \<open>A movement of \<open>m\<close> whole metres, for which \<open>int(m * 100)\<close> is \<open>100 * m\<close>.\<close>

definition move :: "string \<Rightarrow> int \<Rightarrow> movement" where
  "move d m = \<lparr> direction = d, centimetres = 100 * m, delay = None \<rparr>"

text \<open>A table with a location \<open>A\<close> that has its own return path, and the \<open>home\<close> entry.\<close>

definition table :: locations where
  "table =
     [''A'' \<mapsto> \<lparr> path = Some [move ''forward'' 1], capture_points = None,
                  return_path = Some [move ''back'' 1], other_keys = [] \<rparr>,
      ''home'' \<mapsto> \<lparr> path = None, capture_points = None,
                     return_path = Some [move ''left'' 2], other_keys = [] \<rparr>]"

text \<open>Two capture points without repositioning, sampling 2 frames and 1 frame; a video feed
  whose k-th frame shows the marker k pixels off centre, so that the frames are pairwise
  different; and a controller that still holds an image from an earlier mission.\<close>

definition two_points :: "capture_point list" where
  "two_points = [\<lparr> position = None, frames = Some 2 \<rparr>, \<lparr> position = None, frames = Some 1 \<rparr>]"

definition numbered :: "nat \<Rightarrow> frame option" where
  "numbered k = Some (home_frame (real k) 0 (0, 0, 1))"

definition used :: controller where
  "used = (idle (link 80 numbered (\<lambda>_ _. True)))\<lparr>image_buffer := [aligned_frame]\<rparr>"

text \<open>A marker seen with translation (0.3, 0, 0) and too small to be aligned: once at the
  frame centre and once 60 pixels right of it; and a controller hovering over each.\<close>

definition small_centred :: frame where
  "small_centred = home_frame 0 100 (0.3, 0, 0)"


definition hovering :: controller where
  "hovering = idle (link 80 (\<lambda>_. Some small_centred) (\<lambda>_ _. True))"



text \<open>A controller whose every frame shows the marker aligned, every command acknowledged.\<close>

definition ready :: controller where
  "ready = idle (link 80 (\<lambda>_. Some aligned_frame) (\<lambda>_ _. True))"

text \<open>The samples of the alignment example, on the 960 x 720 frame of 691200 pixels: the
  marker 40 px off centre covering 15% of the frame, and 60 px off centre covering 20%;
  and a frame that shows only a marker with another identifier.\<close>

definition near_frame :: frame where
  "near_frame = home_frame 40 103680 (0, 0, 1)"

definition far_frame :: frame where
  "far_frame = home_frame 60 138240 (0, 0, 1)"

definition stray_frame :: frame where
  "stray_frame = (home_frame 0 172800 (0, 0, 1))\<lparr>detected :=
     [(7, \<lparr> corner_mean = (480, 360), contour_area = 172800, tvec = (0, 0, 1),
              rvec = (0, 0, 0) \<rparr>)]\<rparr>"

text \<open>Controllers for the preflight checks: battery at 15%, no video frame, and a frame
  without the home marker; a controller with a mission in progress; and a link that rejects
  every command.\<close>

definition low :: controller where
  "low = idle (link 15 (\<lambda>_. Some aligned_frame) (\<lambda>_ _. True))"

definition blind :: controller where
  "blind = idle (link 80 (\<lambda>_. None) (\<lambda>_ _. True))"

definition astray :: controller where
  "astray = idle (link 80 (\<lambda>_. Some stray_frame) (\<lambda>_ _. True))"

definition busy :: controller where
  "busy = ready\<lparr>mission_in_progress := True, current_mission := Some (new_mission ''A'' 0)\<rparr>"


section \<open>Auxiliary notions\<close>

text \<open>What no step of the pipeline changes: the two mission fields of the controller and
  the three feeds of the link.\<close>

definition keeps :: "controller \<Rightarrow> controller \<Rightarrow> bool" where
  "keeps s s' \<longleftrightarrow>
     mission_in_progress s' = mission_in_progress s \<and>
     current_mission s' = current_mission s \<and>
     battery_feed (drone s') = battery_feed (drone s) \<and>
     frame_feed (drone s') = frame_feed (drone s) \<and>
     ack_feed (drone s') = ack_feed (drone s)"


text \<open>The number of frames sampled at a capture point.\<close>

definition frame_count :: "capture_point \<Rightarrow> nat" where
  "frame_count point = nat (case frames point of None \<Rightarrow> 1 | Some k \<Rightarrow> k)"

text \<open>The repositioning commands of a capture point: one or none.\<close>

definition reposition :: "capture_point \<Rightarrow> movement list" where
  "reposition point = (case position point of Some p \<Rightarrow> [p] | None \<Rightarrow> [])"

text \<open>The commands sent between two states of the controller.\<close>

definition sent_since :: "controller \<Rightarrow> controller \<Rightarrow> command list" where
  "sent_since s s' = drop (length (sent (drone s))) (sent (drone s'))"

text \<open>The state in which \<open>execute_mission\<close> enters its \<open>try\<close> block.\<close>

definition accepted :: "string \<Rightarrow> real \<Rightarrow> controller \<Rightarrow> controller" where
  "accepted location_id now s =
     s\<lparr>mission_in_progress := True, current_mission := Some (new_mission location_id now)\<rparr>"

text \<open>The battery level and the frame that the next reading of the link returns.\<close>

definition next_battery :: "controller \<Rightarrow> int" where
  "next_battery s = battery_feed (drone s) (battery_reads (drone s))"

definition next_frame :: "controller \<Rightarrow> frame option" where
  "next_frame s = frame_feed (drone s) (frame_reads (drone s))"

text \<open>A frame on which a round of the alignment loop enters the correction block: the
  evaluation is not aligned and gives a sample more than 50 pixels off centre.\<close>

definition needs_correction :: "frame \<Rightarrow> bool" where
  "needs_correction f =
     (case get_landing_alignment f of
        (aligned, None) \<Rightarrow> False
      | (aligned, Some a) \<Rightarrow> \<not> aligned \<and> distance_from_center a > 50)"

text \<open>The return path that \<open>return_home\<close> reads: that of the entry \<open>home\<close> of the table.
  Here an absent key gives the empty path.\<close>

definition home_return_path :: "locations \<Rightarrow> movement list" where
  "home_return_path locs =
     (case locs ''home'' of
        None \<Rightarrow> []
      | Some home \<Rightarrow> (case return_path home of None \<Rightarrow> [] | Some rp \<Rightarrow> rp))"

text \<open>The commands of a whole mission to the location with entry \<open>location_data\<close>, in the
  order of the pipeline: takeoff and ascent, the path of the entry, the repositionings of
  its capture points, the return path of the entry \<open>home\<close>, the corrections \<open>cs\<close> of the
  alignment loop, and the landing. An absent key contributes nothing.\<close>

definition flight_plan :: "locations \<Rightarrow> location \<Rightarrow> command list \<Rightarrow> command list" where
  "flight_plan locs location_data cs =
     [Plain ''takeoff'', Arg ''up'' 100] @
     map command_of (case path location_data of None \<Rightarrow> [] | Some p \<Rightarrow> p) @
     map command_of (concat (map reposition
       (case capture_points location_data of None \<Rightarrow> [] | Some ps \<Rightarrow> ps))) @
     map command_of (home_return_path locs) @ cs @ [Plain ''land'']"

section \<open>Frame conditions of the steps\<close>

lemma keeps_refl: "keeps s s"
  by (simp add: keeps_def)

lemma keeps_trans: "keeps s s1 \<Longrightarrow> keeps s1 s2 \<Longrightarrow> keeps s s2"
  by (simp add: keeps_def)

lemma send_command_keeps: "keeps s (snd (send_command c s))"
  by (simp add: keeps_def send_command_def)

lemma get_frame_keeps: "keeps s (snd (get_frame s))"
  by (simp add: keeps_def get_frame_def)

lemma get_battery_keeps: "keeps s (snd (get_battery s))"
  by (simp add: keeps_def get_battery_def)

lemma execute_path_keeps:
  "execute_path p s = (r, s') \<Longrightarrow>
     keeps s s' \<and> image_buffer s' = image_buffer s \<and>
     frame_reads (drone s') = frame_reads (drone s) \<and>
     battery_reads (drone s') = battery_reads (drone s)"
proof (induction p arbitrary: s)
  case Nil
  then show ?case by (auto simp: keeps_def)
next
  case (Cons cmd rest)
  show ?case
  proof (cases "fst (send_command (command_of cmd) s)")
    case True
    with Cons.prems have "execute_path rest (snd (send_command (command_of cmd) s)) = (r, s')"
      by (simp add: Let_def split: prod.splits)
    from Cons.IH [OF this] show ?thesis
      by (simp add: keeps_def send_command_def)
  next
    case False
    with Cons.prems show ?thesis
      by (auto simp: Let_def keeps_def send_command_def split: prod.splits)
  qed
qed

lemma execute_path_sent:
  "execute_path p s = (r, s') \<Longrightarrow>
     \<exists>cs. sent (drone s') = sent (drone s) @ map command_of cs \<and>
          (r = Inr () \<longrightarrow> cs = p)"
proof (induction p arbitrary: s)
  case Nil
  then show ?case by auto
next
  case (Cons cmd rest)
  show ?case
  proof (cases "fst (send_command (command_of cmd) s)")
    case True
    with Cons.prems have "execute_path rest (snd (send_command (command_of cmd) s)) = (r, s')"
      by (simp add: Let_def split: prod.splits)
    from Cons.IH [OF this] obtain cs where
      "sent (drone s') = sent (drone s) @ map command_of (cmd # cs)" "r = Inr () \<longrightarrow> cs = rest"
      by (auto simp: send_command_def)
    then show ?thesis by blast
  next
    case False
    with Cons.prems have "sent (drone s') = sent (drone s) @ map command_of [cmd]" "r \<noteq> Inr ()"
      by (auto simp: Let_def send_command_def split: prod.splits)
    then show ?thesis by blast
  qed
qed

lemma execute_path_acked:
  "\<forall>k c. ack_feed (drone s) k c \<Longrightarrow> fst (execute_path p s) = Inr ()"
proof (induction p arbitrary: s)
  case Nil
  show ?case by simp
next
  case (Cons cmd rest)
  have "\<forall>k c. ack_feed (drone (snd (send_command (command_of cmd) s))) k c"
    using Cons.prems by (simp add: send_command_def)
  from Cons.IH [OF this] Cons.prems show ?case
    by (simp add: Let_def send_command_def split: prod.splits)
qed

section \<open>Capturing frames\<close>

lemma map_filter_append:
  "List.map_filter f (xs @ ys) = List.map_filter f xs @ List.map_filter f ys"
  by (induction xs) (auto split: option.splits)

lemma capture_frames_effect:
  "capture_frames n s = s' \<Longrightarrow>
     keeps s s' \<and> sent (drone s') = sent (drone s) \<and>
     battery_reads (drone s') = battery_reads (drone s) \<and>
     frame_reads (drone s') = frame_reads (drone s) + n \<and>
     image_buffer s' = image_buffer s @
       List.map_filter (frame_feed (drone s)) [frame_reads (drone s) ..< frame_reads (drone s) + n]"
proof (induction n arbitrary: s)
  case 0
  then show ?case by (auto simp: keeps_def)
next
  case (Suc n)
  let ?r = "frame_reads (drone s)"
  let ?s1 = "snd (get_frame s)"
  have upt: "[?r ..< ?r + Suc n] = ?r # [Suc ?r ..< Suc ?r + n]"
    by (simp add: upt_conv_Cons)
  show ?case
  proof (cases "frame_feed (drone s) ?r")
    case None
    with Suc.prems have "capture_frames n ?s1 = s'"
      by (simp add: get_frame_def)
    from Suc.IH [OF this] None show ?thesis
      unfolding upt by (simp add: keeps_def get_frame_def)
  next
    case (Some f)
    with Suc.prems have "capture_frames n (?s1\<lparr>image_buffer := image_buffer ?s1 @ [f]\<rparr>) = s'"
      by (simp add: get_frame_def)
    from Suc.IH [OF this] Some show ?thesis
      unfolding upt by (simp add: keeps_def get_frame_def)
  qed
qed

lemma capture_each_step:
  assumes "capture_each (point # rest) s = (r, s')"
  obtains (rejected) e where "execute_path (reposition point) s = (Inl e, s')" "r = Inl e"
  | (sampled) s1 where "execute_path (reposition point) s = (Inr (), s1)"
      "capture_each rest (capture_frames (frame_count point) s1) = (r, s')"
proof (cases "position point")
  case None
  with assms have "execute_path (reposition point) s = (Inr (), s)"
    "capture_each rest (capture_frames (frame_count point) s) = (r, s')"
    by (simp_all add: reposition_def frame_count_def)
  then show ?thesis by (rule sampled)
next
  case (Some p)
  obtain r1 s1 where step: "execute_path [p] s = (r1, s1)"
    by (cases "execute_path [p] s") auto
  show ?thesis
  proof (cases r1)
    case (Inl e)
    with assms Some step have "execute_path (reposition point) s = (Inl e, s')" "r = Inl e"
      unfolding reposition_def by (simp_all del: execute_path.simps)
    then show ?thesis by (rule rejected)
  next
    case (Inr u)
    with assms Some step have "execute_path (reposition point) s = (Inr (), s1)"
      "capture_each rest (capture_frames (frame_count point) s1) = (r, s')"
      unfolding reposition_def frame_count_def by (simp_all del: execute_path.simps)
    then show ?thesis by (rule sampled)
  qed
qed

lemma capture_each_keeps:
  "capture_each points s = (r, s') \<Longrightarrow>
     keeps s s' \<and> battery_reads (drone s') = battery_reads (drone s)"
proof (induction points arbitrary: s)
  case Nil
  then show ?case by (auto simp: keeps_def)
next
  case (Cons point rest)
  from Cons.prems show ?case
  proof (cases rule: capture_each_step)
    case (rejected e)
    from execute_path_keeps [OF rejected(1)] show ?thesis by simp
  next
    case (sampled s1)
    note k1 = execute_path_keeps [OF sampled(1)]
    note k2 = capture_frames_effect [of "frame_count point" s1, OF refl]
    note k3 = Cons.IH [OF sampled(2)]
    have "keeps s s'"
      using k1 k2 k3 by (blast intro: keeps_trans)
    moreover have "battery_reads (drone s') = battery_reads (drone s)"
      using k1 k2 k3 by simp
    ultimately show ?thesis by simp
  qed
qed

lemma capture_each_reads:
  "capture_each points s = (r, s') \<Longrightarrow>
     frame_reads (drone s) \<le> frame_reads (drone s') \<and>
     (r = Inr () \<longrightarrow>
        frame_reads (drone s') = frame_reads (drone s) + sum_list (map frame_count points))"
proof (induction points arbitrary: s)
  case Nil
  then show ?case by auto
next
  case (Cons point rest)
  from Cons.prems show ?case
  proof (cases rule: capture_each_step)
    case (rejected e)
    from execute_path_keeps [OF rejected(1)] rejected(2) show ?thesis by simp
  next
    case (sampled s1)
    note k1 = execute_path_keeps [OF sampled(1)]
    note k2 = capture_frames_effect [of "frame_count point" s1, OF refl]
    note k3 = Cons.IH [OF sampled(2)]
    have "frame_reads (drone (capture_frames (frame_count point) s1)) =
        frame_reads (drone s) + frame_count point"
      using k1 k2 by simp
    with k3 show ?thesis by simp
  qed
qed

lemma capture_each_buffer:
  "capture_each points s = (r, s') \<Longrightarrow>
     image_buffer s' = image_buffer s @
       List.map_filter (frame_feed (drone s)) [frame_reads (drone s) ..< frame_reads (drone s')]"
proof (induction points arbitrary: s)
  case Nil
  then show ?case by auto
next
  case (Cons point rest)
  from Cons.prems show ?case
  proof (cases rule: capture_each_step)
    case (rejected e)
    from execute_path_keeps [OF rejected(1)] show ?thesis by simp
  next
    case (sampled s1)
    define s2 where "s2 = capture_frames (frame_count point) s1"
    define a where "a = frame_reads (drone s)"
    define n where "n = frame_count point"
    note k1 = execute_path_keeps [OF sampled(1)]
    note k2 = capture_frames_effect [of "frame_count point" s1, OF refl]
    have rest: "capture_each rest s2 = (r, s')"
      using sampled(2) by (simp add: s2_def)
    note k3 = Cons.IH [OF rest]
    have feed: "frame_feed (drone s2) = frame_feed (drone s)"
      using k1 k2 by (simp add: keeps_def s2_def)
    have feed1: "frame_feed (drone s1) = frame_feed (drone s)"
      using k1 by (simp add: keeps_def)
    have reads1: "frame_reads (drone s1) = a"
      using k1 by (simp add: a_def)
    have reads2: "frame_reads (drone s2) = a + n"
      using k2 reads1 by (simp add: s2_def n_def)
    have buf2: "image_buffer s2 = image_buffer s @ List.map_filter (frame_feed (drone s)) [a ..< a + n]"
      using k1 k2 reads1 feed1 by (simp add: s2_def n_def)
    have "a + n \<le> frame_reads (drone s')"
      using capture_each_reads [OF rest] reads2 by simp
    then obtain d where d: "frame_reads (drone s') = (a + n) + d"
      using le_Suc_ex by blast
    have split_upt: "[a ..< frame_reads (drone s')] = [a ..< a + n] @ [a + n ..< frame_reads (drone s')]"
      unfolding d by (rule upt_add_eq_append) simp
    have "image_buffer s' = image_buffer s2 @
        List.map_filter (frame_feed (drone s)) [a + n ..< frame_reads (drone s')]"
      using k3 feed reads2 by simp
    also have "\<dots> = image_buffer s @ List.map_filter (frame_feed (drone s)) [a ..< frame_reads (drone s')]"
      unfolding buf2 split_upt by (simp add: map_filter_append)
    finally show ?thesis by (simp add: a_def)
  qed
qed

lemma capture_each_sent:
  "capture_each points s = (r, s') \<Longrightarrow>
     \<exists>ms. sent (drone s') = sent (drone s) @ map command_of ms \<and>
          (r = Inr () \<longrightarrow> ms = concat (map reposition points))"
proof (induction points arbitrary: s)
  case Nil
  then show ?case by auto
next
  case (Cons point rest)
  from Cons.prems show ?case
  proof (cases rule: capture_each_step)
    case (rejected e)
    from execute_path_sent [OF rejected(1)] rejected(2) show ?thesis by auto
  next
    case (sampled s1)
    note k2 = capture_frames_effect [of "frame_count point" s1, OF refl]
    from execute_path_sent [OF sampled(1)]
    have s1: "sent (drone s1) = sent (drone s) @ map command_of (reposition point)"
      by auto
    from Cons.IH [OF sampled(2)] obtain ms where
      ms: "sent (drone s') = sent (drone (capture_frames (frame_count point) s1)) @ map command_of ms"
          "r = Inr () \<longrightarrow> ms = concat (map reposition rest)"
      by blast
    have "sent (drone s') = sent (drone s) @ map command_of (reposition point @ ms)"
      using ms(1) k2 s1 by simp
    moreover have "r = Inr () \<longrightarrow> reposition point @ ms = concat (map reposition (point # rest))"
      using ms(2) by simp
    ultimately show ?thesis by blast
  qed
qed

lemma capture_each_acked:
  "\<forall>k c. ack_feed (drone s) k c \<Longrightarrow> fst (capture_each points s) = Inr ()"
proof (induction points arbitrary: s)
  case Nil
  show ?case by simp
next
  case (Cons point rest)
  obtain r s' where run: "capture_each (point # rest) s = (r, s')"
    by (cases "capture_each (point # rest) s") auto
  from run show ?case
  proof (cases rule: capture_each_step)
    case (rejected e)
    with execute_path_acked [OF Cons.prems, of "reposition point"] show ?thesis by simp
  next
    case (sampled s1)
    note k1 = execute_path_keeps [OF sampled(1)]
    note k2 = capture_frames_effect [of "frame_count point" s1, OF refl]
    have "\<forall>k c. ack_feed (drone (capture_frames (frame_count point) s1)) k c"
      using k1 k2 Cons.prems by (simp add: keeps_def)
    from Cons.IH [OF this] sampled(2) run show ?thesis by simp
  qed
qed

lemma execute_path_error:
  "execute_path p s = (Inl e, s') \<Longrightarrow> \<exists>m \<in> set p. e = PathCommandFailed (command_of m)"
proof (induction p arbitrary: s)
  case Nil
  then show ?case by simp
next
  case (Cons cmd rest)
  show ?case
  proof (cases "fst (send_command (command_of cmd) s)")
    case True
    with Cons.prems have "execute_path rest (snd (send_command (command_of cmd) s)) = (Inl e, s')"
      by (simp add: Let_def split: prod.splits)
    from Cons.IH [OF this] show ?thesis by auto
  next
    case False
    with Cons.prems show ?thesis
      by (auto simp: Let_def split: prod.splits)
  qed
qed

lemma capture_each_error:
  "capture_each points s = (Inl e, s') \<Longrightarrow>
     \<exists>point \<in> set points. \<exists>m. position point = Some m \<and> e = PathCommandFailed (command_of m)"
proof (induction points arbitrary: s)
  case Nil
  then show ?case by simp
next
  case (Cons point rest)
  from Cons.prems show ?case
  proof (cases rule: capture_each_step)
    case (rejected e')
    from execute_path_error [OF rejected(1)] obtain m where
      m: "m \<in> set (reposition point)" "e' = PathCommandFailed (command_of m)"
      by blast
    from m(1) have "position point = Some m"
      by (cases "position point") (simp_all add: reposition_def)
    with m(2) rejected(2) show ?thesis by simp
  next
    case (sampled s1)
    from Cons.IH [OF sampled(2)] show ?thesis by auto
  qed
qed

lemma length_map_filter_total:
  "\<forall>x \<in> set xs. f x \<noteq> None \<Longrightarrow> length (List.map_filter f xs) = length xs"
  by (induction xs) (auto split: option.splits)

text \<open>
  C9. The capture phase discards the buffer it finds and then holds exactly the non-null
  frames of the video feed, in the order they were requested: the frames of the first point,
  then those of the second, and so on. A null frame is skipped without a second request
  and without an error: the only error the phase can end with is the rejection of a
  repositioning command. When every command is acknowledged the phase succeeds and has
  requested as many frames as the points ask for; if moreover every frame is non-null the
  buffer has that many entries.
\<close>

theorem capture_location_buffer:
  assumes "capture_location points s = (r, s')"
  shows "image_buffer s' =
           List.map_filter (frame_feed (drone s)) [frame_reads (drone s) ..< frame_reads (drone s')]
         \<and> (\<forall>e. r = Inl e \<longrightarrow>
               (\<exists>point \<in> set points. \<exists>m. position point = Some m \<and>
                  e = PathCommandFailed (command_of m)))
         \<and> (r = Inr () \<longrightarrow>
               frame_reads (drone s') = frame_reads (drone s) + sum_list (map frame_count points))
         \<and> ((\<forall>k c. ack_feed (drone s) k c) \<longrightarrow> r = Inr ())
         \<and> (r = Inr () \<and> (\<forall>k. frame_feed (drone s) k \<noteq> None) \<longrightarrow>
               length (image_buffer s') = sum_list (map frame_count points))"
proof -
  let ?s0 = "s\<lparr>image_buffer := []\<rparr>"
  have run: "capture_each points ?s0 = (r, s')"
    using assms by (simp add: capture_location_def)
  have buf: "image_buffer s' =
      List.map_filter (frame_feed (drone s)) [frame_reads (drone s) ..< frame_reads (drone s')]"
    using capture_each_buffer [OF run] by simp
  have err: "\<forall>e. r = Inl e \<longrightarrow>
      (\<exists>point \<in> set points. \<exists>m. position point = Some m \<and> e = PathCommandFailed (command_of m))"
    using capture_each_error run by blast
  have cnt: "r = Inr () \<longrightarrow>
      frame_reads (drone s') = frame_reads (drone s) + sum_list (map frame_count points)"
    using capture_each_reads [OF run] by simp
  have ack: "(\<forall>k c. ack_feed (drone s) k c) \<longrightarrow> r = Inr ()"
    using capture_each_acked [of ?s0 points] run by simp
  have len: "r = Inr () \<and> (\<forall>k. frame_feed (drone s) k \<noteq> None) \<longrightarrow>
      length (image_buffer s') = sum_list (map frame_count points)"
    using cnt by (simp add: buf length_map_filter_total)
  from buf err cnt ack len show ?thesis by simp
qed

theorem capture_location_buffer_witness:
  "fst (capture_location two_points used) = Inr () \<and>
   image_buffer (snd (capture_location two_points used)) =
     [home_frame 0 0 (0, 0, 1), home_frame 1 0 (0, 0, 1), home_frame 2 0 (0, 0, 1)] \<and>
   length (image_buffer (snd (capture_location two_points used))) = 3"
proof -
  have run: "capture_location two_points used =
      (fst (capture_location two_points used), snd (capture_location two_points used))"
    by simp
  have acks: "\<forall>k c. ack_feed (drone used) k c"
    by (simp add: used_def idle_def link_def)
  have feed: "\<forall>k. frame_feed (drone used) k \<noteq> None"
    by (simp add: used_def idle_def link_def numbered_def)
  have cnt: "sum_list (map frame_count two_points) = 3"
    by (simp add: two_points_def frame_count_def)
  have start: "frame_reads (drone used) = 0" "frame_feed (drone used) = numbered"
    by (simp_all add: used_def idle_def link_def)
  have upt3: "[0 ..< 3] = [0, 1, 2::nat]"
    by (simp add: upt_rec)
  from capture_location_buffer [OF run] acks feed cnt start show ?thesis
    by (simp add: upt3 numbered_def)
qed

section \<open>The alignment loop\<close>

lemma getitem_tolist:
  "getitem (tolist v) 0 = Inr (PyList [PyFloat (fst v), PyFloat (fst (snd v)), PyFloat (snd (snd v))])"
  "getitem (tolist v) 1 = Inl IndexError"
  "getitem (tolist v) (Suc 0) = Inl IndexError"
  by (simp_all add: getitem_def tolist_def split: prod.splits)

lemma detected_translation:
  "snd (get_landing_alignment f) = Some a \<Longrightarrow> \<exists>v. translation a = tolist v"
  by (cases "detect_markers f")
    (auto simp: get_landing_alignment_def Let_def simp del: split_paired_Ex split: if_splits)

text \<open>On a sample that the detector returns, the correction block is left at once when the
  sample is at most 50 pixels off centre, and otherwise fails at the second subscript.\<close>

lemma adjust_detected:
  assumes "snd (get_landing_alignment f) = Some a"
  shows "adjust (Some a) s =
    (if distance_from_center a > 50 then Inl IndexError else Inr (), s)"
proof -
  from detected_translation [OF assms] obtain v where "translation a = tolist v" ..
  then show ?thesis
    by (simp add: adjust_def getitem_tolist)
qed

lemma adjust_evaluation:
  "\<not> fst (get_landing_alignment f) \<Longrightarrow>
     adjust (snd (get_landing_alignment f)) s =
       (if needs_correction f then Inl IndexError else Inr (), s)"
proof (cases "snd (get_landing_alignment f)")
  case None
  then show ?thesis
    by (cases "get_landing_alignment f") (simp add: adjust_def needs_correction_def)
next
  case (Some a)
  moreover assume "\<not> fst (get_landing_alignment f)"
  ultimately show ?thesis
    using adjust_detected [OF Some, of s]
    by (auto simp: needs_correction_def split: prod.splits)
qed

lemma needs_correction_iff:
  "needs_correction f \<longleftrightarrow>
     \<not> fst (get_landing_alignment f) \<and>
     (\<exists>a. snd (get_landing_alignment f) = Some a \<and> distance_from_center a > 50)"
  by (cases "get_landing_alignment f"; cases "snd (get_landing_alignment f)")
    (auto simp: needs_correction_def)

lemma align_round_cases:
  obtains (noframe) "next_frame s = None"
      "align_round s = (Inl NoVideoFrameForLanding, snd (get_frame s))"
  | (aborted) f where "next_frame s = Some f" "needs_correction f"
      "align_round s = (Inl IndexError, snd (get_frame s))"
  | (evaluated) f where "next_frame s = Some f" "\<not> needs_correction f"
      "align_round s = (Inr (fst (get_landing_alignment f)), snd (get_frame s))"
proof (cases "next_frame s")
  case None
  then have "align_round s = (Inl NoVideoFrameForLanding, snd (get_frame s))"
    by (simp add: align_round_def get_frame_def next_frame_def)
  with None show ?thesis by (rule noframe)
next
  case (Some f)
  have frame: "get_frame s = (Some f, snd (get_frame s))"
    using Some by (simp add: get_frame_def next_frame_def)
  show ?thesis
  proof (cases "fst (get_landing_alignment f)")
    case True
    then have "\<not> needs_correction f"
      by (simp add: needs_correction_iff)
    moreover have "align_round s = (Inr (fst (get_landing_alignment f)), snd (get_frame s))"
      using True Some
      by (cases "get_landing_alignment f")
        (simp add: align_round_def get_frame_def next_frame_def)
    ultimately show ?thesis using Some by (intro evaluated [of f]) simp_all
  next
    case False
    note adj = adjust_evaluation [OF False, of "snd (get_frame s)"]
    have round: "align_round s =
        (case adjust (snd (get_landing_alignment f)) (snd (get_frame s)) of
           (Inl e, s2) \<Rightarrow> (Inl e, s2)
         | (Inr u, s2) \<Rightarrow> (Inr False, s2))"
      using False Some
      by (cases "get_landing_alignment f")
        (simp add: align_round_def get_frame_def next_frame_def)
    show ?thesis
    proof (cases "needs_correction f")
      case True
      with round adj have "align_round s = (Inl IndexError, snd (get_frame s))" by simp
      with Some True show ?thesis by (intro aborted [of f]) simp_all
    next
      case nc: False
      with round adj False
      have "align_round s = (Inr (fst (get_landing_alignment f)), snd (get_frame s))" by simp
      with Some nc show ?thesis by (intro evaluated [of f]) simp_all
    qed
  qed
qed

lemma align_round_state: "snd (align_round s) = snd (get_frame s)"
  by (cases s rule: align_round_cases) simp_all

lemma align_round_effect:
  assumes "align_round s = (r, s')"
  shows "keeps s s' \<and> image_buffer s' = image_buffer s \<and>
         battery_reads (drone s') = battery_reads (drone s) \<and>
         frame_reads (drone s') = Suc (frame_reads (drone s)) \<and>
         sent (drone s') = sent (drone s)"
proof -
  have "s' = snd (get_frame s)"
    using assms align_round_state [of s] by simp
  then show ?thesis by (simp add: get_frame_def keeps_def)
qed

lemma align_round_evaluated:
  assumes "align_round s = (Inr al', s1)"
  obtains f where "next_frame s = Some f" "al' = fst (get_landing_alignment f)"
    "\<not> needs_correction f"
  using assms by (cases s rule: align_round_cases) auto


lemma align_loop_step:
  assumes "align_loop al n s = (r, s')"
  obtains (finished) "al \<or> 3 \<le> n" "r = Inr al" "s' = s"
  | (failed) e where "\<not> al" "n < 3" "align_round s = (Inl e, s')" "r = Inl e"
  | (again) al' s1 where "\<not> al" "n < 3" "align_round s = (Inr al', s1)"
      "align_loop al' (n + 1) s1 = (r, s')"
proof (cases "\<not> al \<and> n < 3")
  case False
  with assms have "r = Inr al" "s' = s"
    by (simp_all add: align_loop.simps [of al n s])
  with False show ?thesis by (auto intro: finished)
next
  case True
  obtain r1 s1 where round: "align_round s = (r1, s1)"
    by (cases "align_round s") auto
  have unfold: "align_loop al n s =
      (case r1 of Inl e \<Rightarrow> (Inl e, s1) | Inr al' \<Rightarrow> align_loop al' (n + 1) s1)"
    using True round by (subst align_loop.simps) simp
  show ?thesis
  proof (cases r1)
    case (Inl e)
    with unfold assms have "s' = s1" "r = Inl e" by simp_all
    with True round Inl show ?thesis by (auto intro: failed)
  next
    case (Inr al')
    with unfold assms have "align_loop al' (n + 1) s1 = (r, s')" by simp
    with True round Inr show ?thesis by (auto intro: again)
  qed
qed

lemma align_loop_effect:
  "align_loop al n s = (r, s') \<Longrightarrow>
     keeps s s' \<and> image_buffer s' = image_buffer s \<and>
     battery_reads (drone s') = battery_reads (drone s) \<and>
     frame_reads (drone s) \<le> frame_reads (drone s') \<and>
     frame_reads (drone s') \<le> frame_reads (drone s) + (3 - n) \<and>
     sent (drone s') = sent (drone s)"
proof (induction al n s arbitrary: r s' rule: align_loop.induct)
  case (1 al n s)
  from "1.prems" show ?case
  proof (cases rule: align_loop_step)
    case finished
    then show ?thesis by (simp add: keeps_def)
  next
    case (failed e)
    from align_round_effect [OF failed(3)] failed(2) show ?thesis by auto
  next
    case (again al' s1)
    note k1 = align_round_effect [OF again(3)]
    have "\<not> al \<and> n < 3" using again by simp
    note k2 = "1.IH" [OF this again(3) [symmetric] refl again(4)]
    have "keeps s s'" using k1 k2 by (blast intro: keeps_trans)
    moreover have "image_buffer s' = image_buffer s"
      "battery_reads (drone s') = battery_reads (drone s)"
      "frame_reads (drone s) \<le> frame_reads (drone s')"
      "sent (drone s') = sent (drone s)"
      using k1 k2 by simp_all
    moreover have "frame_reads (drone s') \<le> frame_reads (drone s) + (3 - n)"
    proof -
      have "frame_reads (drone s') \<le> frame_reads (drone s1) + (3 - (n + 1))"
        "frame_reads (drone s1) = Suc (frame_reads (drone s))"
        using k1 k2 by simp_all
      with again(2) show ?thesis by arith
    qed
    ultimately show ?thesis by simp
  qed
qed

lemma align_loop_aligned:
  "align_loop al n s = (Inr True, s') \<Longrightarrow>
     al \<or> (\<exists>i < 3 - n. \<exists>f. frame_feed (drone s) (frame_reads (drone s) + i) = Some f \<and>
                        fst (get_landing_alignment f))"
proof (induction al n s arbitrary: s' rule: align_loop.induct)
  case (1 al n s)
  from "1.prems" show ?case
  proof (cases rule: align_loop_step)
    case finished
    then show ?thesis by simp
  next
    case (failed e)
    then show ?thesis by simp
  next
    case (again al' s1)
    note k1 = align_round_effect [OF again(3)]
    have "\<not> al \<and> n < 3" using again by simp
    note k2 = "1.IH" [OF this again(3) [symmetric] refl again(4)]
    from again(3) obtain f where f: "next_frame s = Some f"
      "al' = fst (get_landing_alignment f)"
      by (rule align_round_evaluated)
    show ?thesis
    proof (cases al')
      case True
      with f again(2) have "0 < 3 - n \<and> frame_feed (drone s) (frame_reads (drone s) + 0) = Some f
          \<and> fst (get_landing_alignment f)"
        by (simp add: next_frame_def)
      then show ?thesis by blast
    next
      case False
      with k2 obtain i g where i: "i < 3 - (n + 1)"
        "frame_feed (drone s1) (frame_reads (drone s1) + i) = Some g" "fst (get_landing_alignment g)"
        by blast
      have "frame_feed (drone s) (frame_reads (drone s) + Suc i) = Some g"
        using i(2) k1 by (simp add: keeps_def)
      moreover have "Suc i < 3 - n" using i(1) by arith
      ultimately show ?thesis using i(3) by blast
    qed
  qed
qed




section \<open>Evaluating the example frames\<close>

lemma norm2_horizontal: "norm2 (x, y) (x', y) = \<bar>x - x'\<bar>"
  by (simp add: norm2_def)

lemma home_frame_alignment:
  "get_landing_alignment (home_frame off area t) =
     (\<bar>off\<bar> < 50 \<and> area > 69120,
      Some \<lparr> distance_from_center = \<bar>off\<bar>, marker_size = area, translation = tolist t,
             rotation = tolist (0, 0, 0), is_aligned = (\<bar>off\<bar> < 50 \<and> area > 69120) \<rparr>)"
  by (simp add: get_landing_alignment_def detect_markers_def home_frame_def HOME_MARKER_ID_def
      norm2_horizontal Let_def)



section \<open>C1: corrective motion\<close>




section \<open>Returning home\<close>



text \<open>The commands of a path are sent in order, up to the first that is rejected.\<close>

lemma execute_path_trace:
  "execute_path p s = (r, s') \<Longrightarrow>
     \<exists>tr. sent (drone s') = sent (drone s) @ tr \<and> prefix tr (map command_of p) \<and>
          (r = Inr () \<longrightarrow> tr = map command_of p)"
    (is "_ \<Longrightarrow> \<exists>tr. ?T p s tr")
proof (induction p arbitrary: s)
  case Nil
  then have "?T [] s []" by simp
  then show ?case by (rule exI)
next
  case (Cons cmd rest)
  let ?s1 = "snd (send_command (command_of cmd) s)"
  have s1: "sent (drone ?s1) = sent (drone s) @ [command_of cmd]"
    by (simp add: send_command_def)
  show ?case
  proof (cases "fst (send_command (command_of cmd) s)")
    case True
    with Cons.prems have "execute_path rest ?s1 = (r, s')"
      by (simp add: Let_def split: prod.splits)
    from Cons.IH [OF this] obtain tr where tr: "?T rest ?s1 tr" ..
    with s1 have "?T (cmd # rest) s (command_of cmd # tr)" by simp
    then show ?thesis by (rule exI)
  next
    case False
    with Cons.prems have "s' = ?s1" "r \<noteq> Inr ()"
      by (auto simp: Let_def split: prod.splits)
    with s1 have "?T (cmd # rest) s [command_of cmd]" by simp
    then show ?thesis by (rule exI)
  qed
qed

lemma return_home_cases:
  assumes "return_home locs s = (r, s')"
  obtains (nohome) "locs ''home'' = None" "r = Inl (KeyError ''home'')" "s' = s"
  | (nopath) home where "locs ''home'' = Some home" "return_path home = None"
      "r = Inl (KeyError ''return_path'')" "s' = s"
  | (rejected) home rp e where "locs ''home'' = Some home" "return_path home = Some rp"
      "execute_path rp s = (Inl e, s')" "r = Inl e"
  | (noframe) home rp s1 e where "locs ''home'' = Some home" "return_path home = Some rp"
      "execute_path rp s = (Inr (), s1)" "align_loop False 0 s1 = (Inl e, s')" "r = Inl e"
  | (timeout) home rp s1 where "locs ''home'' = Some home" "return_path home = Some rp"
      "execute_path rp s = (Inr (), s1)" "align_loop False 0 s1 = (Inr False, s')"
      "r = Inl FailedToAlign"
  | (landing) home rp s1 s2 where "locs ''home'' = Some home" "return_path home = Some rp"
      "execute_path rp s = (Inr (), s1)" "align_loop False 0 s1 = (Inr True, s2)"
      "s' = snd (send_command (Plain ''land'') s2)"
      "r = (if fst (send_command (Plain ''land'') s2) then Inr () else Inl LandingFailed)"
proof (cases "locs ''home''")
  case None
  with assms show ?thesis by (intro nohome) (simp_all add: return_home_def)
next
  case (Some home)
  note home = this
  show ?thesis
  proof (cases "return_path home")
    case None
    with home assms show ?thesis by (intro nopath [of home]) (simp_all add: return_home_def)
  next
    case (Some rp)
    note rp = this
    obtain r1 s1 where path: "execute_path rp s = (r1, s1)"
      by (cases "execute_path rp s") auto
    show ?thesis
    proof (cases r1)
      case (Inl e)
      with home rp path assms show ?thesis
        by (intro rejected [of home rp e]) (simp_all add: return_home_def)
    next
      case (Inr u)
      note r1 = this
      obtain r2 s2 where loop: "align_loop False 0 s1 = (r2, s2)"
        by (cases "align_loop False 0 s1") auto
      show ?thesis
      proof (cases r2)
        case (Inl e)
        with home rp path r1 loop assms show ?thesis
          by (intro noframe [of home rp s1 e]) (simp_all add: return_home_def)
      next
        case (Inr al)
        show ?thesis
        proof (cases al)
          case False
          with Inr home rp path r1 loop assms show ?thesis
            by (intro timeout [of home rp s1]) (simp_all add: return_home_def)
        next
          case True
          with Inr home rp path r1 loop assms show ?thesis
            by (intro landing [of home rp s1 s2])
              (auto simp: return_home_def split: prod.splits if_splits)
        qed
      qed
    qed
  qed
qed

text \<open>What \<open>return_home\<close> sends: an initial part of the return path of the entry \<open>home\<close>
  and then, only after the whole of it and after a round that evaluated a frame as aligned,
  \<open>land\<close>.\<close>

lemma return_home_trace:
  assumes "return_home locs s = (r, s')"
  shows "\<exists>tr ls. sent (drone s') = sent (drone s) @ tr @ ls \<and>
           prefix tr (map command_of (home_return_path locs)) \<and>
           (ls = [] \<or> ls = [Plain ''land'']) \<and>
           (ls = [] \<longrightarrow> r \<noteq> Inr ()) \<and>
           (ls \<noteq> [] \<longrightarrow> tr = map command_of (home_return_path locs) \<and>
              r \<noteq> Inl FailedToAlign \<and>
              (\<exists>i < 3. \<exists>f. frame_feed (drone s) (frame_reads (drone s) + i) = Some f \<and>
                          fst (get_landing_alignment f)))"
    (is "\<exists>tr ls. ?T tr ls")
  using assms
proof (cases rule: return_home_cases)
  case nohome
  then have "?T [] []" by simp
  then show ?thesis by (intro exI)
next
  case (nopath home)
  then have "?T [] []" by simp
  then show ?thesis by (intro exI)
next
  case (rejected home rp e)
  from execute_path_trace [OF rejected(3)] obtain tr where
    "sent (drone s') = sent (drone s) @ tr" "prefix tr (map command_of rp)"
    by auto
  with rejected(1,2,4) have "?T tr []" by (simp add: home_return_path_def)
  then show ?thesis by (intro exI)
next
  case (noframe home rp s1 e)
  from execute_path_trace [OF noframe(3)]
  have p: "sent (drone s1) = sent (drone s) @ map command_of rp" by auto
  from align_loop_effect [OF noframe(4)] have "sent (drone s') = sent (drone s1)" by simp
  with p noframe(1,2,5) have "?T (map command_of rp) []" by (simp add: home_return_path_def)
  then show ?thesis by (intro exI)
next
  case (timeout home rp s1)
  from execute_path_trace [OF timeout(3)]
  have p: "sent (drone s1) = sent (drone s) @ map command_of rp" by auto
  from align_loop_effect [OF timeout(4)] have "sent (drone s') = sent (drone s1)" by simp
  with p timeout(1,2,5) have "?T (map command_of rp) []" by (simp add: home_return_path_def)
  then show ?thesis by (intro exI)
next
  case (landing home rp s1 s2)
  note k1 = execute_path_keeps [OF landing(3)]
  from execute_path_trace [OF landing(3)]
  have p: "sent (drone s1) = sent (drone s) @ map command_of rp" by auto
  from align_loop_effect [OF landing(4)] have "sent (drone s2) = sent (drone s1)" by simp
  with p landing(5)
  have snt: "sent (drone s') = sent (drone s) @ map command_of rp @ [Plain ''land'']"
    by (simp add: send_command_def)
  from align_loop_aligned [OF landing(4)] obtain i f where
    "i < 3" "frame_feed (drone s1) (frame_reads (drone s1) + i) = Some f"
    "fst (get_landing_alignment f)"
    by auto
  with k1 have seen: "\<exists>i < 3. \<exists>f. frame_feed (drone s) (frame_reads (drone s) + i) = Some f \<and>
      fst (get_landing_alignment f)"
    by (auto simp: keeps_def)
  have "r \<noteq> Inl FailedToAlign" using landing(6) by simp
  with snt seen landing(1,2) have "?T (map command_of rp) [Plain ''land'']"
    by (simp add: home_return_path_def)
  then show ?thesis by (intro exI)
qed

lemma return_home_effect:
  assumes "return_home locs s = (r, s')"
  shows "keeps s s' \<and> image_buffer s' = image_buffer s \<and>
         battery_reads (drone s') = battery_reads (drone s) \<and>
         frame_reads (drone s) \<le> frame_reads (drone s') \<and>
         frame_reads (drone s') \<le> frame_reads (drone s) + 3"
  using assms
proof (cases rule: return_home_cases)
  case nohome
  then show ?thesis by (simp add: keeps_def)
next
  case (nopath home)
  then show ?thesis by (simp add: keeps_def)
next
  case (rejected home rp e)
  from execute_path_keeps [OF rejected(3)] show ?thesis by simp
next
  case (noframe home rp s1 e)
  note k1 = execute_path_keeps [OF noframe(3)]
  note k2 = align_loop_effect [OF noframe(4)]
  have "keeps s s'" using k1 k2 by (blast intro: keeps_trans)
  with k1 k2 show ?thesis by simp
next
  case (timeout home rp s1)
  note k1 = execute_path_keeps [OF timeout(3)]
  note k2 = align_loop_effect [OF timeout(4)]
  have "keeps s s'" using k1 k2 by (blast intro: keeps_trans)
  with k1 k2 show ?thesis by simp
next
  case (landing home rp s1 s2)
  note k1 = execute_path_keeps [OF landing(3)]
  note k2 = align_loop_effect [OF landing(4)]
  have k3: "keeps s2 s'" "image_buffer s' = image_buffer s2"
    "battery_reads (drone s') = battery_reads (drone s2)"
    "frame_reads (drone s') = frame_reads (drone s2)"
    using landing(5) by (simp_all add: send_command_def keeps_def)
  have "keeps s s'" using k1 k2 k3(1) by (blast intro: keeps_trans)
  with k1 k2 k3 show ?thesis by simp
qed

section \<open>C2: the bounded alignment loop\<close>

lemmas run_defs = execute_mission_def pipeline_def takeoff_sequence_def return_home_def
  capture_location_def align_round_def adjust_def getitem_def tolist_def home_frame_alignment
  get_battery_def get_frame_def send_command_def set_mission_def falsy_def
  align_loop.simps command_of_def py_int_def TAKEOFF_HEIGHT_def
  aligned_frame_def link_def idle_def move_def table_def Let_def




section \<open>C3: the alignment evaluation\<close>

lemma index_first:
  "map_of ds k = Some m \<Longrightarrow> k \<in> set (map fst ds) \<and> map snd ds ! index (map fst ds) k = m"
  by (induction ds) (auto split: if_splits)

lemma map_of_present: "k \<in> set (map fst ds) \<Longrightarrow> \<exists>m. map_of ds k = Some m"
  by (induction ds) auto

text \<open>
  C3. The evaluation returns (false, none) when the home-marker identifier is not among the
  detected identifiers. Otherwise, for the first detected marker with that identifier, it
  returns a sample, and aligned holds exactly when the pixel distance between the marker's
  centre and the frame's centre is strictly below 50 and the marker's area is strictly above
  a tenth of the frame's area (rows times columns). Hence on a frame with at least one pixel
  a sample at distance 40 with 15% of the frame area is aligned, and a sample at distance 60
  with 20% of the frame area is not.
\<close>

theorem get_landing_alignment_thresholds:
  "(HOME_MARKER_ID \<notin> set (fst (detect_markers frame)) \<longrightarrow>
      get_landing_alignment frame = (False, None))
   \<and> (HOME_MARKER_ID \<in> set (fst (detect_markers frame)) \<longrightarrow>
        (\<exists>m. map_of (detected frame) HOME_MARKER_ID = Some m))
   \<and> (\<forall>m d A. map_of (detected frame) HOME_MARKER_ID = Some m \<and>
        d = norm2 (corner_mean m) (real (shape1 frame) / 2, real (shape0 frame) / 2) \<and>
        A = real (shape0 frame) * real (shape1 frame) \<longrightarrow>
        get_landing_alignment frame =
          (d < 50 \<and> contour_area m > A / 10,
           Some \<lparr> distance_from_center = d, marker_size = contour_area m,
                  translation = tolist (tvec m), rotation = tolist (rvec m),
                  is_aligned = (d < 50 \<and> contour_area m > A / 10) \<rparr>)
        \<and> (d = 40 \<and> contour_area m = 15 / 100 * A \<and> 0 < A \<longrightarrow> fst (get_landing_alignment frame))
        \<and> (d = 60 \<and> contour_area m = 20 / 100 * A \<longrightarrow> \<not> fst (get_landing_alignment frame)))"
proof (intro conjI allI impI)
  assume "HOME_MARKER_ID \<notin> set (fst (detect_markers frame))"
  then show "get_landing_alignment frame = (False, None)"
    by (simp add: get_landing_alignment_def detect_markers_def)
next
  assume "HOME_MARKER_ID \<in> set (fst (detect_markers frame))"
  then show "\<exists>m. map_of (detected frame) HOME_MARKER_ID = Some m"
    by (simp add: detect_markers_def map_of_present del: set_map)
next
  fix m d A
  assume h: "map_of (detected frame) HOME_MARKER_ID = Some m \<and>
      d = norm2 (corner_mean m) (real (shape1 frame) / 2, real (shape0 frame) / 2) \<and>
      A = real (shape0 frame) * real (shape1 frame)"
  from h index_first [of "detected frame" HOME_MARKER_ID m]
  have first: "HOME_MARKER_ID \<in> set (map fst (detected frame))"
    "map snd (detected frame) ! index (map fst (detected frame)) HOME_MARKER_ID = m"
    by simp_all
  show eval: "get_landing_alignment frame =
      (d < 50 \<and> contour_area m > A / 10,
       Some \<lparr> distance_from_center = d, marker_size = contour_area m,
              translation = tolist (tvec m), rotation = tolist (rvec m),
              is_aligned = (d < 50 \<and> contour_area m > A / 10) \<rparr>)"
    using first h by (simp add: get_landing_alignment_def detect_markers_def Let_def del: set_map)
  show "fst (get_landing_alignment frame)"
    if "d = 40 \<and> contour_area m = 15 / 100 * A \<and> 0 < A"
    using that by (simp add: eval)
  show "\<not> fst (get_landing_alignment frame)"
    if "d = 60 \<and> contour_area m = 20 / 100 * A"
    using that by (simp add: eval)
qed


theorem get_landing_alignment_thresholds_witness:
  "get_landing_alignment stray_frame = (False, None) \<and>
   fst (get_landing_alignment near_frame) \<and>
   map_option distance_from_center (snd (get_landing_alignment near_frame)) = Some 40 \<and>
   map_option marker_size (snd (get_landing_alignment near_frame)) = Some (15 / 100 * 691200) \<and>
   \<not> fst (get_landing_alignment far_frame) \<and>
   map_option distance_from_center (snd (get_landing_alignment far_frame)) = Some 60 \<and>
   map_option marker_size (snd (get_landing_alignment far_frame)) = Some (20 / 100 * 691200)"
proof -
  let ?near = "\<lparr> corner_mean = (520, 360), contour_area = 103680, tvec = (0, 0, 1),
                 rvec = (0, 0, 0) \<rparr>"
  let ?far = "\<lparr> corner_mean = (540, 360), contour_area = 138240, tvec = (0, 0, 1),
                rvec = (0, 0, 0) \<rparr>"
  have stray: "HOME_MARKER_ID \<notin> set (fst (detect_markers stray_frame))"
    by (simp add: stray_frame_def home_frame_def detect_markers_def HOME_MARKER_ID_def)
  have near: "map_of (detected near_frame) HOME_MARKER_ID = Some ?near \<and>
      40 = norm2 (corner_mean ?near) (real (shape1 near_frame) / 2, real (shape0 near_frame) / 2) \<and>
      691200 = real (shape0 near_frame) * real (shape1 near_frame)"
    by (simp add: near_frame_def home_frame_def HOME_MARKER_ID_def norm2_horizontal)
  have far: "map_of (detected far_frame) HOME_MARKER_ID = Some ?far \<and>
      60 = norm2 (corner_mean ?far) (real (shape1 far_frame) / 2, real (shape0 far_frame) / 2) \<and>
      691200 = real (shape0 far_frame) * real (shape1 far_frame)"
    by (simp add: far_frame_def home_frame_def HOME_MARKER_ID_def norm2_horizontal)
  note a = get_landing_alignment_thresholds [of stray_frame, THEN conjunct1, THEN mp, OF stray]
  note b = get_landing_alignment_thresholds [of near_frame, THEN conjunct2, THEN conjunct2,
      THEN spec, THEN spec, THEN spec, THEN mp, OF near]
  note c = get_landing_alignment_thresholds [of far_frame, THEN conjunct2, THEN conjunct2,
      THEN spec, THEN spec, THEN spec, THEN mp, OF far]
  from a b c show ?thesis by simp
qed

section \<open>Takeoff and the pipeline\<close>

lemma takeoff_sequence_cases:
  assumes "takeoff_sequence s = (r, s')"
  obtains (battery) "next_battery s < 20" "r = Inl (BatteryTooLow (next_battery s))"
      "s' = snd (get_battery s)"
  | (noframe) "20 \<le> next_battery s" "next_frame s = None" "r = Inl NoVideoFrame"
      "s' = snd (get_frame (snd (get_battery s)))"
  | (nomarker) f where "20 \<le> next_battery s" "next_frame s = Some f"
      "snd (get_landing_alignment f) = None" "r = Inl CannotDetectHomeMarker"
      "s' = snd (get_frame (snd (get_battery s)))"
  | (commanded) f a where "20 \<le> next_battery s" "next_frame s = Some f"
      "snd (get_landing_alignment f) = Some a"
      "sent (drone s') = sent (drone s) @ [Plain ''takeoff''] \<and> r = Inl TakeoffFailed \<or>
       sent (drone s') = sent (drone s) @ [Plain ''takeoff'', Arg ''up'' 100] \<and>
         (r = Inl FailedToReachHeight \<or> r = Inr ())"
      "keeps s s'" "image_buffer s' = image_buffer s"
      "frame_reads (drone s') = Suc (frame_reads (drone s))"
proof (cases "next_battery s < 20")
  case True
  with assms show ?thesis
    by (intro battery) (simp_all add: takeoff_sequence_def get_battery_def next_battery_def)
next
  case False
  note charged = this
  show ?thesis
  proof (cases "next_frame s")
    case None
    with charged assms show ?thesis
      by (intro noframe)
        (simp_all add: takeoff_sequence_def get_battery_def get_frame_def next_battery_def
          next_frame_def)
  next
    case (Some f)
    note f = this
    show ?thesis
    proof (cases "snd (get_landing_alignment f)")
      case None
      with charged f assms show ?thesis
        by (intro nomarker [of f])
          (simp_all add: takeoff_sequence_def get_battery_def get_frame_def next_battery_def
            next_frame_def)
    next
      case (Some a)
      have up: "py_int (TAKEOFF_HEIGHT * 100) = 100"
        by (simp add: py_int_def TAKEOFF_HEIGHT_def)
      from Some charged f assms show ?thesis
        by (intro commanded [of f a])
          (auto simp: takeoff_sequence_def get_battery_def get_frame_def send_command_def
            next_battery_def next_frame_def keeps_def up split: if_splits)
    qed
  qed
qed

lemma takeoff_sequence_keeps:
  assumes "takeoff_sequence s = (r, s')"
  shows "keeps s s' \<and> image_buffer s' = image_buffer s"
  using assms
  by (cases rule: takeoff_sequence_cases) (simp_all add: keeps_def get_battery_def get_frame_def)

lemma pipeline_keeps:
  assumes "pipeline locs loc s = (r, s')"
  shows "keeps s s'"
proof -
  obtain r1 s1 where t: "takeoff_sequence s = (r1, s1)"
    by (cases "takeoff_sequence s") auto
  note k1 = takeoff_sequence_keeps [OF t]
  show ?thesis
  proof (cases "\<exists>p. r1 = Inr () \<and> path loc = Some p")
    case False
    with t assms have "s' = s1"
      by (cases r1; cases "path loc") (simp_all add: pipeline_def)
    with k1 show ?thesis by simp
  next
    case True
    then obtain p where p: "r1 = Inr ()" "path loc = Some p" by blast
    obtain r2 s2 where e: "execute_path p s1 = (r2, s2)"
      by (cases "execute_path p s1") auto
    note k2 = execute_path_keeps [OF e]
    show ?thesis
    proof (cases r2)
      case (Inl x)
      with t p e assms have "s' = s2" by (simp add: pipeline_def)
      with k1 k2 show ?thesis by (blast intro: keeps_trans)
    next
      case (Inr u)
      let ?points = "case capture_points loc of None \<Rightarrow> [] | Some ps \<Rightarrow> ps"
      obtain r3 s3 where c: "capture_location ?points s2 = (r3, s3)"
        by (cases "capture_location ?points s2") auto
      then have c': "capture_each ?points (s2\<lparr>image_buffer := []\<rparr>) = (r3, s3)"
        by (simp add: capture_location_def)
      have k3: "keeps s2 s3"
        using capture_each_keeps [OF c'] by (simp add: keeps_def)
      show ?thesis
      proof (cases r3)
        case (Inl x)
        with Inr t p e c assms have "s' = s3" by (simp add: pipeline_def)
        with k1 k2 k3 show ?thesis by (blast intro: keeps_trans)
      next
        case Inr': (Inr v)
        with Inr t p e c assms have "return_home locs s3 = (r, s')" by (simp add: pipeline_def)
        from return_home_effect [OF this] k1 k2 k3 show ?thesis by (blast intro: keeps_trans)
      qed
    qed
  qed
qed

section \<open>C8: rejected requests\<close>

text \<open>
  C8. \<open>execute_mission\<close> fails with the conflict error when a mission is already in
  progress, and with the unknown-location error when no mission is in progress and the
  location id is not in the table. In both cases the controller is returned exactly as it
  was: flag, mission record, image buffer and link are unchanged, and in the second case
  the flag is still false.
\<close>

theorem execute_mission_rejects:
  "(mission_in_progress s \<longrightarrow>
      execute_mission locs now location_id s = (Inl AnotherMissionInProgress, s))
   \<and> (\<not> mission_in_progress s \<and> locs location_id = None \<longrightarrow>
        execute_mission locs now location_id s = (Inl (UnknownLocation location_id), s) \<and>
        \<not> mission_in_progress (snd (execute_mission locs now location_id s)))"
  by (simp add: execute_mission_def)

theorem execute_mission_rejects_witness:
  "execute_mission table 5 ''A'' busy = (Inl AnotherMissionInProgress, busy) \<and>
   mission_in_progress busy \<and>
   execute_mission table 5 ''nowhere'' ready = (Inl (UnknownLocation ''nowhere''), ready) \<and>
   \<not> mission_in_progress ready"
proof -
  have b: "mission_in_progress busy"
    by (simp add: busy_def)
  have r: "\<not> mission_in_progress ready \<and> table ''nowhere'' = None"
    by (simp add: ready_def idle_def table_def)
  from execute_mission_rejects [where s = busy and locs = table and now = 5
        and location_id = "''A''", THEN conjunct1, THEN mp, OF b]
    execute_mission_rejects [where s = ready and locs = table and now = 5
        and location_id = "''nowhere''", THEN conjunct2, THEN mp, OF r] b r
  show ?thesis by simp
qed

section \<open>C5: failure of the pipeline\<close>

text \<open>
  C5. When a mission is accepted and a step of the pipeline fails with an error e, then
  \<open>execute_mission\<close> signals the single error that wraps e, and leaves the controller with
  the mission's status set to failed, e written into the mission's error entry and the
  in-progress flag cleared; whatever the outcome of a call made while no mission is in
  progress, the flag is clear when the call returns.
\<close>

theorem execute_mission_failure:
  "(\<forall>location_data e s1.
      \<not> mission_in_progress s \<and> locs location_id = Some location_data \<and> \<not> falsy location_data \<and>
      pipeline locs location_data (accepted location_id now s) = (Inl e, s1) \<longrightarrow>
      execute_mission locs now location_id s =
        (Inl (MissionFailed e),
         s1\<lparr>mission_in_progress := False,
            current_mission := Some ((new_mission location_id now)
              (''status'' \<mapsto> PStr ''failed'', ''error'' \<mapsto> PErr e))\<rparr>))
   \<and> (\<not> mission_in_progress s \<longrightarrow>
        \<not> mission_in_progress (snd (execute_mission locs now location_id s)))"
proof (intro conjI allI impI)
  fix location_data e s1
  assume h: "\<not> mission_in_progress s \<and> locs location_id = Some location_data \<and>
      \<not> falsy location_data \<and>
      pipeline locs location_data (accepted location_id now s) = (Inl e, s1)"
  then have run: "pipeline locs location_data (accepted location_id now s) = (Inl e, s1)"
    by simp
  from pipeline_keeps [OF run]
  have "current_mission s1 = Some (new_mission location_id now)"
    by (simp add: keeps_def accepted_def)
  with h show "execute_mission locs now location_id s =
        (Inl (MissionFailed e),
         s1\<lparr>mission_in_progress := False,
            current_mission := Some ((new_mission location_id now)
              (''status'' \<mapsto> PStr ''failed'', ''error'' \<mapsto> PErr e))\<rparr>)"
    by (simp add: execute_mission_def accepted_def set_mission_def)
next
  assume "\<not> mission_in_progress s"
  then show "\<not> mission_in_progress (snd (execute_mission locs now location_id s))"
    by (simp add: execute_mission_def set_mission_def Let_def
        split: option.splits prod.splits sum.splits)
qed


theorem execute_mission_failure_witness:
  "fst (execute_mission table 0 ''A'' low) = Inl (MissionFailed (BatteryTooLow 15)) \<and>
   current_mission (snd (execute_mission table 0 ''A'' low)) =
     Some ((new_mission ''A'' 0)(''status'' \<mapsto> PStr ''failed'',
                                ''error'' \<mapsto> PErr (BatteryTooLow 15))) \<and>
   \<not> mission_in_progress (snd (execute_mission table 0 ''A'' low))"
proof -
  let ?A = "\<lparr> path = Some [move ''forward'' 1], capture_points = None,
              return_path = Some [move ''back'' 1], other_keys = [] \<rparr>"
  have "fst (pipeline table ?A (accepted ''A'' 0 low)) = Inl (BatteryTooLow 15)"
    by (simp add: pipeline_def takeoff_sequence_def get_battery_def accepted_def low_def
        idle_def link_def)
  then have run: "pipeline table ?A (accepted ''A'' 0 low) =
      (Inl (BatteryTooLow 15), snd (pipeline table ?A (accepted ''A'' 0 low)))"
    by (simp add: prod_eq_iff)
  have h: "\<not> mission_in_progress low \<and> table ''A'' = Some ?A \<and> \<not> falsy ?A \<and>
      pipeline table ?A (accepted ''A'' 0 low) =
        (Inl (BatteryTooLow 15), snd (pipeline table ?A (accepted ''A'' 0 low)))"
    using run by (simp add: low_def idle_def table_def falsy_def)
  from execute_mission_failure [where s = low and locs = table and now = 0
      and location_id = "''A''", THEN conjunct1, THEN spec, THEN spec, THEN spec, THEN mp, OF h]
  show ?thesis by simp
qed

section \<open>C6: completion\<close>

text \<open>
  C6 as stated fails: a mission that runs through every step is returned with the location
  id, the start time and the status, and with no completion time.
\<close>

theorem completion_time_counterexample:
  "fst (execute_mission table 0 ''A'' ready) =
     Inr (Some [''location_id'' \<mapsto> PStr ''A'', ''start_time'' \<mapsto> PFloat 0,
                ''status'' \<mapsto> PStr ''completed'']) \<and>
   [''location_id'' \<mapsto> PStr ''A'', ''start_time'' \<mapsto> PFloat 0,
    ''status'' \<mapsto> PStr ''completed''] ''completion_time'' = None \<and>
   current_mission (snd (execute_mission table 0 ''A'' ready)) =
     Some [''location_id'' \<mapsto> PStr ''A'', ''start_time'' \<mapsto> PFloat 0,
           ''status'' \<mapsto> PStr ''completed'']"
  by (simp add: ready_def new_mission_def run_defs)

text \<open>
  C6, amended. When a mission is accepted and every step of the pipeline succeeds,
  \<open>execute_mission\<close> sets the mission's status to completed, clears the in-progress flag and
  returns the mission record it keeps as current mission. That record has exactly the
  entries location id, start time and status: no completion time is recorded.
\<close>

theorem execute_mission_success:
  "\<forall>location_data u s1.
      \<not> mission_in_progress s \<and> locs location_id = Some location_data \<and> \<not> falsy location_data \<and>
      pipeline locs location_data (accepted location_id now s) = (Inr u, s1) \<longrightarrow>
      execute_mission locs now location_id s =
        (Inr (Some ((new_mission location_id now)(''status'' \<mapsto> PStr ''completed''))),
         s1\<lparr>mission_in_progress := False,
            current_mission :=
              Some ((new_mission location_id now)(''status'' \<mapsto> PStr ''completed''))\<rparr>)
      \<and> dom ((new_mission location_id now)(''status'' \<mapsto> PStr ''completed'')) =
          {''location_id'', ''start_time'', ''status''}"
proof (intro allI impI)
  fix location_data u s1
  assume h: "\<not> mission_in_progress s \<and> locs location_id = Some location_data \<and>
      \<not> falsy location_data \<and>
      pipeline locs location_data (accepted location_id now s) = (Inr u, s1)"
  then have run: "pipeline locs location_data (accepted location_id now s) = (Inr u, s1)"
    by simp
  from pipeline_keeps [OF run]
  have "current_mission s1 = Some (new_mission location_id now)"
    by (simp add: keeps_def accepted_def)
  with h have "execute_mission locs now location_id s =
        (Inr (Some ((new_mission location_id now)(''status'' \<mapsto> PStr ''completed''))),
         s1\<lparr>mission_in_progress := False,
            current_mission :=
              Some ((new_mission location_id now)(''status'' \<mapsto> PStr ''completed''))\<rparr>)"
    by (simp add: execute_mission_def accepted_def set_mission_def)
  moreover have "dom ((new_mission location_id now)(''status'' \<mapsto> PStr ''completed'')) =
      {''location_id'', ''start_time'', ''status''}"
    by (auto simp: new_mission_def)
  ultimately show "execute_mission locs now location_id s =
        (Inr (Some ((new_mission location_id now)(''status'' \<mapsto> PStr ''completed''))),
         s1\<lparr>mission_in_progress := False,
            current_mission :=
              Some ((new_mission location_id now)(''status'' \<mapsto> PStr ''completed''))\<rparr>)
      \<and> dom ((new_mission location_id now)(''status'' \<mapsto> PStr ''completed'')) =
          {''location_id'', ''start_time'', ''status''}"
    by simp
qed

theorem execute_mission_success_witness:
  "fst (execute_mission table 7 ''A'' ready) =
     Inr (Some ((new_mission ''A'' 7)(''status'' \<mapsto> PStr ''completed''))) \<and>
   current_mission (snd (execute_mission table 7 ''A'' ready)) =
     Some ((new_mission ''A'' 7)(''status'' \<mapsto> PStr ''completed'')) \<and>
   \<not> mission_in_progress (snd (execute_mission table 7 ''A'' ready)) \<and>
   ''completion_time'' \<notin> dom ((new_mission ''A'' 7)(''status'' \<mapsto> PStr ''completed''))"
proof -
  let ?A = "\<lparr> path = Some [move ''forward'' 1], capture_points = None,
              return_path = Some [move ''back'' 1], other_keys = [] \<rparr>"
  have "fst (pipeline table ?A (accepted ''A'' 7 ready)) = Inr ()"
    by (simp add: accepted_def ready_def run_defs)
  then have run: "pipeline table ?A (accepted ''A'' 7 ready) =
      (Inr (), snd (pipeline table ?A (accepted ''A'' 7 ready)))"
    by (simp add: prod_eq_iff)
  have h: "\<not> mission_in_progress ready \<and> table ''A'' = Some ?A \<and> \<not> falsy ?A \<and>
      pipeline table ?A (accepted ''A'' 7 ready) =
        (Inr (), snd (pipeline table ?A (accepted ''A'' 7 ready)))"
    using run by (simp add: ready_def idle_def table_def falsy_def)
  from execute_mission_success [where s = ready and locs = table and now = 7
      and location_id = "''A''", THEN spec, THEN spec, THEN spec, THEN mp, OF h]
  show ?thesis by simp
qed

section \<open>C7: preflight\<close>

lemma alignment_none_iff:
  "snd (get_landing_alignment f) = None \<longleftrightarrow> HOME_MARKER_ID \<notin> set (fst (detect_markers f))"
  by (cases "detect_markers f") (simp add: get_landing_alignment_def Let_def)

text \<open>
  C7. The takeoff sequence reads the battery first. If the level is below 20 it fails with
  the battery error, having requested no frame and sent no command; a mission accepted with
  such a battery fails with that error wrapped and with no command sent. Otherwise the
  sequence requests one frame and fails, again with no command sent, with the no-frame
  error if there is none and with the marker error if the home marker is not detected in
  it: whenever the sequence sends a command, the battery was at 20 or more and the home
  marker was detected in the current frame.
\<close>

theorem takeoff_sequence_preflight:
  "(next_battery s < 20 \<longrightarrow>
      fst (takeoff_sequence s) = Inl (BatteryTooLow (next_battery s)) \<and>
      sent (drone (snd (takeoff_sequence s))) = sent (drone s) \<and>
      frame_reads (drone (snd (takeoff_sequence s))) = frame_reads (drone s))
   \<and> (\<forall>location_data.
        next_battery s < 20 \<and> \<not> mission_in_progress s \<and>
        locs location_id = Some location_data \<and> \<not> falsy location_data \<longrightarrow>
        fst (execute_mission locs now location_id s) =
          Inl (MissionFailed (BatteryTooLow (next_battery s))) \<and>
        sent (drone (snd (execute_mission locs now location_id s))) = sent (drone s))
   \<and> (20 \<le> next_battery s \<and> next_frame s = None \<longrightarrow>
        fst (takeoff_sequence s) = Inl NoVideoFrame \<and>
        sent (drone (snd (takeoff_sequence s))) = sent (drone s))
   \<and> (\<forall>f. 20 \<le> next_battery s \<and> next_frame s = Some f \<and>
        HOME_MARKER_ID \<notin> set (fst (detect_markers f)) \<longrightarrow>
        fst (takeoff_sequence s) = Inl CannotDetectHomeMarker \<and>
        sent (drone (snd (takeoff_sequence s))) = sent (drone s))
   \<and> (sent (drone (snd (takeoff_sequence s))) \<noteq> sent (drone s) \<longrightarrow>
        20 \<le> next_battery s \<and>
        (\<exists>f. next_frame s = Some f \<and> HOME_MARKER_ID \<in> set (fst (detect_markers f))))"
proof (intro conjI allI impI)
  assume "next_battery s < 20"
  then show "fst (takeoff_sequence s) = Inl (BatteryTooLow (next_battery s))"
    "sent (drone (snd (takeoff_sequence s))) = sent (drone s)"
    "frame_reads (drone (snd (takeoff_sequence s))) = frame_reads (drone s)"
    by (simp_all add: takeoff_sequence_def get_battery_def next_battery_def)
next
  fix location_data
  assume h: "next_battery s < 20 \<and> \<not> mission_in_progress s \<and>
      locs location_id = Some location_data \<and> \<not> falsy location_data"
  let ?s0 = "s\<lparr>mission_in_progress := True,
               current_mission := Some (new_mission location_id now)\<rparr>"
  have low: "battery_feed (drone ?s0) (battery_reads (drone ?s0)) < 20"
    using h by (simp add: next_battery_def)
  have "pipeline locs location_data ?s0 =
      (Inl (BatteryTooLow (next_battery s)), snd (get_battery ?s0))"
    using low by (simp add: pipeline_def takeoff_sequence_def get_battery_def next_battery_def)
  with h show "fst (execute_mission locs now location_id s) =
        Inl (MissionFailed (BatteryTooLow (next_battery s)))"
    "sent (drone (snd (execute_mission locs now location_id s))) = sent (drone s)"
    by (simp_all add: execute_mission_def set_mission_def get_battery_def)
next
  assume "20 \<le> next_battery s \<and> next_frame s = None"
  then show "fst (takeoff_sequence s) = Inl NoVideoFrame"
    "sent (drone (snd (takeoff_sequence s))) = sent (drone s)"
    by (simp_all add: takeoff_sequence_def get_battery_def get_frame_def next_battery_def
        next_frame_def)
next
  fix f
  assume h: "20 \<le> next_battery s \<and> next_frame s = Some f \<and>
      HOME_MARKER_ID \<notin> set (fst (detect_markers f))"
  then have "snd (get_landing_alignment f) = None"
    by (simp add: alignment_none_iff)
  with h show "fst (takeoff_sequence s) = Inl CannotDetectHomeMarker"
    "sent (drone (snd (takeoff_sequence s))) = sent (drone s)"
    by (simp_all add: takeoff_sequence_def get_battery_def get_frame_def next_battery_def
        next_frame_def)
next
  assume changed: "sent (drone (snd (takeoff_sequence s))) \<noteq> sent (drone s)"
  have run: "takeoff_sequence s = (fst (takeoff_sequence s), snd (takeoff_sequence s))"
    by simp
  from run have "20 \<le> next_battery s \<and>
      (\<exists>f. next_frame s = Some f \<and> HOME_MARKER_ID \<in> set (fst (detect_markers f)))"
  proof (cases rule: takeoff_sequence_cases)
    case battery
    with changed show ?thesis by (simp add: get_battery_def)
  next
    case noframe
    with changed show ?thesis by (simp add: get_battery_def get_frame_def)
  next
    case (nomarker f)
    with changed show ?thesis by (simp add: get_battery_def get_frame_def)
  next
    case (commanded f a)
    have "HOME_MARKER_ID \<in> set (fst (detect_markers f))"
      using commanded(3) alignment_none_iff [of f] by simp
    with commanded(1,2) show ?thesis by simp
  qed
  then show "20 \<le> next_battery s"
    and "\<exists>f. next_frame s = Some f \<and> HOME_MARKER_ID \<in> set (fst (detect_markers f))"
    by simp_all
qed

theorem takeoff_sequence_preflight_witness:
  "next_battery low = 15 \<and>
   fst (execute_mission table 0 ''A'' low) = Inl (MissionFailed (BatteryTooLow 15)) \<and>
   sent (drone (snd (execute_mission table 0 ''A'' low))) = [] \<and>
   fst (takeoff_sequence low) = Inl (BatteryTooLow 15) \<and>
   frame_reads (drone (snd (takeoff_sequence low))) = 0 \<and>
   fst (takeoff_sequence blind) = Inl NoVideoFrame \<and>
   sent (drone (snd (takeoff_sequence blind))) = [] \<and>
   fst (takeoff_sequence astray) = Inl CannotDetectHomeMarker \<and>
   sent (drone (snd (takeoff_sequence astray))) = [] \<and>
   sent (drone (snd (takeoff_sequence ready))) = [Plain ''takeoff'', Arg ''up'' 100] \<and>
   (\<exists>f. next_frame ready = Some f \<and> HOME_MARKER_ID \<in> set (fst (detect_markers f)))"
proof -
  let ?A = "\<lparr> path = Some [move ''forward'' 1], capture_points = None,
              return_path = Some [move ''back'' 1], other_keys = [] \<rparr>"
  have b: "next_battery low = 15" "next_battery low < 20"
    by (simp_all add: next_battery_def low_def idle_def link_def)
  have m: "next_battery low < 20 \<and> \<not> mission_in_progress low \<and>
      table ''A'' = Some ?A \<and> \<not> falsy ?A"
    using b by (simp add: low_def idle_def table_def falsy_def)
  have n: "20 \<le> next_battery blind \<and> next_frame blind = None"
    by (simp add: next_battery_def next_frame_def blind_def idle_def link_def)
  have a: "20 \<le> next_battery astray \<and> next_frame astray = Some stray_frame \<and>
      HOME_MARKER_ID \<notin> set (fst (detect_markers stray_frame))"
    by (simp add: next_battery_def next_frame_def astray_def idle_def link_def
        stray_frame_def home_frame_def detect_markers_def HOME_MARKER_ID_def)
  have r: "sent (drone (snd (takeoff_sequence ready))) = [Plain ''takeoff'', Arg ''up'' 100]"
    "sent (drone ready) = []"
    by (simp_all add: ready_def run_defs)
  have start: "sent (drone low) = []" "sent (drone blind) = []" "sent (drone astray) = []"
    "frame_reads (drone low) = 0"
    by (simp_all add: low_def blind_def astray_def idle_def link_def)
  note l = takeoff_sequence_preflight [where s = low and locs = table and now = 0
      and location_id = "''A''"]
  note l1 = l [THEN conjunct1, THEN mp, OF b(2)]
  note l2 = l [THEN conjunct2, THEN conjunct1, THEN spec, THEN mp, OF m]
  note n3 = takeoff_sequence_preflight [where s = blind and locs = table and now = 0
      and location_id = "''A''", THEN conjunct2, THEN conjunct2, THEN conjunct1, THEN mp, OF n]
  note a4 = takeoff_sequence_preflight [where s = astray and locs = table and now = 0
      and location_id = "''A''", THEN conjunct2, THEN conjunct2, THEN conjunct2, THEN conjunct1,
      THEN spec, THEN mp, OF a]
  have r5: "\<exists>f. next_frame ready = Some f \<and> HOME_MARKER_ID \<in> set (fst (detect_markers f))"
    using takeoff_sequence_preflight [where s = ready and locs = table and now = 0
      and location_id = "''A''", THEN conjunct2, THEN conjunct2, THEN conjunct2, THEN conjunct2]
      r by simp
  from b(1) l1 l2 n3 a4 r(1) r5 start show ?thesis by simp
qed

section \<open>C10: acknowledgements of the corrections\<close>







section \<open>C4: the two legs\<close>

lemma prefix_within: "prefix tr B \<Longrightarrow> prefix (A @ tr) (A @ B @ C)"
  by (simp add: prefix_prefix)

lemma takeoff_sequence_trace:
  assumes "takeoff_sequence s = (r, s')"
  shows "\<exists>tr. sent (drone s') = sent (drone s) @ tr \<and>
           prefix tr [Plain ''takeoff'', Arg ''up'' 100] \<and>
           (r = Inr () \<longrightarrow> tr = [Plain ''takeoff'', Arg ''up'' 100])"
    (is "\<exists>tr. ?T tr")
  using assms
proof (cases rule: takeoff_sequence_cases)
  case battery
  then have "?T []" by (simp add: get_battery_def)
  then show ?thesis by (intro exI)
next
  case noframe
  then have "?T []" by (simp add: get_battery_def get_frame_def)
  then show ?thesis by (intro exI)
next
  case (nomarker f)
  then have "?T []" by (simp add: get_battery_def get_frame_def)
  then show ?thesis by (intro exI)
next
  case (commanded f a)
  from commanded(4) show ?thesis
  proof
    assume "sent (drone s') = sent (drone s) @ [Plain ''takeoff''] \<and> r = Inl TakeoffFailed"
    then have "?T [Plain ''takeoff'']" by simp
    then show ?thesis by (intro exI)
  next
    assume "sent (drone s') = sent (drone s) @ [Plain ''takeoff'', Arg ''up'' 100] \<and>
        (r = Inl FailedToReachHeight \<or> r = Inr ())"
    then have "?T [Plain ''takeoff'', Arg ''up'' 100]" by simp
    then show ?thesis by (intro exI)
  qed
qed

lemma capture_each_trace:
  "capture_each points s = (r, s') \<Longrightarrow>
     \<exists>tr. sent (drone s') = sent (drone s) @ tr \<and>
          prefix tr (map command_of (concat (map reposition points))) \<and>
          (r = Inr () \<longrightarrow> tr = map command_of (concat (map reposition points)))"
    (is "_ \<Longrightarrow> \<exists>tr. ?T points s tr")
proof (induction points arbitrary: s)
  case Nil
  then have "?T [] s []" by simp
  then show ?case by (intro exI)
next
  case (Cons point rest)
  from Cons.prems show ?case
  proof (cases rule: capture_each_step)
    case (rejected e)
    from execute_path_trace [OF rejected(1)] obtain tr where
      tr: "sent (drone s') = sent (drone s) @ tr" "prefix tr (map command_of (reposition point))"
      by auto
    from tr(2) have "prefix tr (map command_of (reposition point) @
        map command_of (concat (map reposition rest)))"
      by (rule prefix_prefix)
    with tr(1) rejected(2) have "?T (point # rest) s tr" by simp
    then show ?thesis by (intro exI)
  next
    case (sampled s1)
    let ?s2 = "capture_frames (frame_count point) s1"
    from execute_path_trace [OF sampled(1)]
    have s1: "sent (drone s1) = sent (drone s) @ map command_of (reposition point)"
      by auto
    have s2: "sent (drone ?s2) = sent (drone s1)"
      using capture_frames_effect [of "frame_count point" s1, OF refl] by simp
    from Cons.IH [OF sampled(2)] obtain tr where tr: "?T rest ?s2 tr" ..
    with s1 s2 have "?T (point # rest) s (map command_of (reposition point) @ tr)"
      by simp
    then show ?thesis by (intro exI)
  qed
qed

lemma pipeline_success:
  assumes "pipeline locs loc s = (Inr u, s')"
  obtains p s1 s2 s3 where "takeoff_sequence s = (Inr (), s1)" "path loc = Some p"
    "execute_path p s1 = (Inr (), s2)"
    "capture_location (case capture_points loc of None \<Rightarrow> [] | Some ps \<Rightarrow> ps) s2 = (Inr (), s3)"
    "return_home locs s3 = (Inr (), s')"
proof -
  obtain r1 s1 where t: "takeoff_sequence s = (r1, s1)"
    by (cases "takeoff_sequence s") auto
  with assms have r1: "r1 = Inr ()"
    by (cases r1) (simp_all add: pipeline_def)
  with assms t obtain p where p: "path loc = Some p"
    by (cases "path loc") (simp_all add: pipeline_def)
  obtain r2 s2 where e: "execute_path p s1 = (r2, s2)"
    by (cases "execute_path p s1") auto
  with assms t r1 p have r2: "r2 = Inr ()"
    by (cases r2) (simp_all add: pipeline_def)
  let ?points = "case capture_points loc of None \<Rightarrow> [] | Some ps \<Rightarrow> ps"
  obtain r3 s3 where c: "capture_location ?points s2 = (r3, s3)"
    by (cases "capture_location ?points s2") auto
  with assms t r1 p e r2 have r3: "r3 = Inr ()"
    by (cases r3) (simp_all add: pipeline_def)
  with assms t r1 p e r2 c have h: "return_home locs s3 = (Inr (), s')"
    by (simp add: pipeline_def)
  from t r1 p e r2 c r3 h show ?thesis
    by (intro that [of s1 p s2 s3]) simp_all
qed

text \<open>Whatever its outcome, the pipeline sends an initial part of the flight plan, and the
  whole of it when it succeeds.\<close>

lemma pipeline_trace:
  assumes "pipeline locs loc s = (r, s')"
  shows "\<exists>tr. sent (drone s') = sent (drone s) @ tr \<and>
           prefix tr (flight_plan locs loc []) \<and>
           (r = Inr () \<longrightarrow> tr = flight_plan locs loc [])"
    (is "\<exists>tr. ?T tr")
proof -
  let ?TU = "[Plain ''takeoff'', Arg ''up'' 100]"
  let ?P = "map command_of (case path loc of None \<Rightarrow> [] | Some p \<Rightarrow> p)"
  let ?points = "case capture_points loc of None \<Rightarrow> [] | Some ps \<Rightarrow> ps"
  let ?C = "map command_of (concat (map reposition ?points))"
  let ?H = "map command_of (home_return_path locs)"
  have plan: "flight_plan locs loc [] = ?TU @ ?P @ ?C @ ?H @ [Plain ''land'']"
    by (simp add: flight_plan_def)
  obtain r1 s1 where t: "takeoff_sequence s = (r1, s1)"
    by (cases "takeoff_sequence s") auto
  from takeoff_sequence_trace [OF t] obtain tr1 where
    "sent (drone s1) = sent (drone s) @ tr1 \<and> prefix tr1 ?TU \<and> (r1 = Inr () \<longrightarrow> tr1 = ?TU)" ..
  then have tr1: "sent (drone s1) = sent (drone s) @ tr1" "prefix tr1 ?TU"
    "r1 = Inr () \<longrightarrow> tr1 = ?TU"
    by simp_all
  show ?thesis
  proof (cases r1)
    case (Inl e)
    with t assms have "r = Inl e" "s' = s1" by (simp_all add: pipeline_def)
    moreover from tr1(2) have "prefix tr1 (?TU @ (?P @ ?C @ ?H @ [Plain ''land'']))"
      by (rule prefix_prefix)
    ultimately have "?T tr1" using tr1(1) plan by simp
    then show ?thesis by (intro exI)
  next
    case (Inr u)
    with tr1 have s1: "sent (drone s1) = sent (drone s) @ ?TU" by simp
    show ?thesis
    proof (cases "path loc")
      case None
      with t Inr assms have "r = Inl (KeyError ''path'')" "s' = s1" by (simp_all add: pipeline_def)
      with s1 have "?T ?TU" unfolding plan by simp
      then show ?thesis by (intro exI)
    next
      case (Some p)
      obtain r2 s2 where e: "execute_path p s1 = (r2, s2)"
        by (cases "execute_path p s1") auto
      from execute_path_trace [OF e] obtain tr2 where
        "sent (drone s2) = sent (drone s1) @ tr2 \<and> prefix tr2 (map command_of p) \<and>
         (r2 = Inr () \<longrightarrow> tr2 = map command_of p)" ..
      with Some have tr2: "sent (drone s2) = sent (drone s1) @ tr2" "prefix tr2 ?P"
        "r2 = Inr () \<longrightarrow> tr2 = ?P"
        by simp_all
      show ?thesis
      proof (cases r2)
        case (Inl x)
        with t Inr Some e assms have "r = Inl x" "s' = s2" by (simp_all add: pipeline_def)
        moreover from tr2(2) have "prefix (?TU @ tr2) (?TU @ ?P @ (?C @ ?H @ [Plain ''land'']))"
          by (rule prefix_within)
        ultimately have "?T (?TU @ tr2)" using s1 tr2(1) plan by simp
        then show ?thesis by (intro exI)
      next
        case Inr2: (Inr u2)
        with tr2 have s2: "sent (drone s2) = sent (drone s) @ ?TU @ ?P" using s1 by simp
        obtain r3 s3 where c: "capture_location ?points s2 = (r3, s3)"
          by (cases "capture_location ?points s2") auto
        then have "capture_each ?points (s2\<lparr>image_buffer := []\<rparr>) = (r3, s3)"
          by (simp add: capture_location_def)
        from capture_each_trace [OF this] obtain tr3 where
          "sent (drone s3) = sent (drone (s2\<lparr>image_buffer := []\<rparr>)) @ tr3 \<and> prefix tr3 ?C \<and>
           (r3 = Inr () \<longrightarrow> tr3 = ?C)" ..
        then have tr3: "sent (drone s3) = sent (drone s2) @ tr3" "prefix tr3 ?C"
          "r3 = Inr () \<longrightarrow> tr3 = ?C"
          by simp_all
        show ?thesis
        proof (cases r3)
          case (Inl x)
          with t Inr Some e Inr2 c assms have "r = Inl x" "s' = s3" by (simp_all add: pipeline_def)
          moreover from tr3(2)
          have "prefix ((?TU @ ?P) @ tr3) ((?TU @ ?P) @ ?C @ (?H @ [Plain ''land'']))"
            by (rule prefix_within)
          ultimately have "?T ((?TU @ ?P) @ tr3)" using s2 tr3(1) plan by simp
          then show ?thesis by (intro exI)
        next
          case Inr3: (Inr u3)
          with tr3 have s3: "sent (drone s3) = sent (drone s) @ ?TU @ ?P @ ?C" using s2 by simp
          from t Inr Some e Inr2 c Inr3 assms have h: "return_home locs s3 = (r, s')"
            by (simp add: pipeline_def)
          from return_home_trace [OF h] obtain tr4 ls where
            "sent (drone s') = sent (drone s3) @ tr4 @ ls \<and> prefix tr4 ?H \<and>
             (ls = [] \<or> ls = [Plain ''land'']) \<and> (ls = [] \<longrightarrow> r \<noteq> Inr ()) \<and>
             (ls \<noteq> [] \<longrightarrow> tr4 = ?H \<and> r \<noteq> Inl FailedToAlign \<and>
                (\<exists>i < 3. \<exists>f. frame_feed (drone s3) (frame_reads (drone s3) + i) = Some f \<and>
                            fst (get_landing_alignment f)))"
            by (elim exE)
          then have tr4: "sent (drone s') = sent (drone s3) @ tr4 @ ls" "prefix tr4 ?H"
              "ls = [] \<or> ls = [Plain ''land'']" "ls = [] \<longrightarrow> r \<noteq> Inr ()"
              "ls \<noteq> [] \<longrightarrow> tr4 = ?H"
            by simp_all
          have tail: "prefix (tr4 @ ls) (?H @ [Plain ''land'']) \<and>
              (r = Inr () \<longrightarrow> tr4 @ ls = ?H @ [Plain ''land''])"
          proof (cases "ls = []")
            case True
            with tr4(2,4) show ?thesis by (simp add: prefix_prefix)
          next
            case False
            with tr4(3,5) show ?thesis by simp
          qed
          then have "prefix ((?TU @ ?P @ ?C) @ tr4 @ ls) ((?TU @ ?P @ ?C) @ (?H @ [Plain ''land'']) @ [])"
            by (intro prefix_within) simp
          with tail have "?T ((?TU @ ?P @ ?C) @ tr4 @ ls)" using s3 tr4(1) plan by simp
          then show ?thesis by (intro exI)
        qed
      qed
    qed
  qed
qed

text \<open>
  C4 as stated fails: the location \<open>A\<close> of the example table has the return path
  \<open>back 1\<close>, and a mission to \<open>A\<close> returns by \<open>left 2\<close>, the return path of the entry \<open>home\<close>.
\<close>

theorem return_leg_counterexample:
  "map_option return_path (table ''A'') = Some (Some [move ''back'' 1]) \<and>
   map_option return_path (table ''home'') = Some (Some [move ''left'' 2]) \<and>
   sent (drone (snd (execute_mission table 0 ''A'' ready))) =
     [Plain ''takeoff'', Arg ''up'' 100, Arg ''forward'' 100, Arg ''left'' 200, Plain ''land''] \<and>
   command_of (move ''back'' 1) = Arg ''back'' 100 \<and>
   Arg ''back'' 100 \<notin> set (sent (drone (snd (execute_mission table 0 ''A'' ready))))"
  by (simp add: ready_def run_defs)

text \<open>
  C4, amended. The outbound leg is taken from the entry of the requested location and the
  return leg from the entry \<open>home\<close> of the table, whatever the requested location is. For
  every accepted mission to a location L, the commands sent are an initial part of this
  list, in this order: takeoff and the ascent, the commands of the \<open>path\<close> of L's entry, the
  repositioning commands of L's capture points, the commands of the \<open>return_path\<close> of the
  entry \<open>home\<close>, corrections of 20 cm, and \<open>land\<close>; when the mission completes they are the
  whole list, and both paths are present in the table.
\<close>

theorem execute_mission_legs:
  "\<forall>location_data.
      \<not> mission_in_progress s \<and> locs location_id = Some location_data \<and> \<not> falsy location_data \<longrightarrow>
      (\<exists>cs. (\<forall>c \<in> set cs. \<exists>d. c = Arg d 20) \<and>
         prefix (sent_since s (snd (execute_mission locs now location_id s)))
           (flight_plan locs location_data cs) \<and>
         (\<forall>m. fst (execute_mission locs now location_id s) = Inr m \<longrightarrow>
            sent_since s (snd (execute_mission locs now location_id s)) =
              flight_plan locs location_data cs \<and>
            (\<exists>p. path location_data = Some p) \<and>
            (\<exists>home rp. locs ''home'' = Some home \<and> return_path home = Some rp)))"
proof (intro allI impI)
  fix location_data
  assume h: "\<not> mission_in_progress s \<and> locs location_id = Some location_data \<and>
      \<not> falsy location_data"
  let ?s0 = "accepted location_id now s"
  let ?final = "snd (execute_mission locs now location_id s)"
  obtain r1 s1 where run: "pipeline locs location_data ?s0 = (r1, s1)"
    by (cases "pipeline locs location_data ?s0") auto
  have unfold: "execute_mission locs now location_id s =
      (case r1 of
         Inr u \<Rightarrow> (Inr (current_mission (set_mission ''status'' (PStr ''completed'') s1)),
                   (set_mission ''status'' (PStr ''completed'') s1)\<lparr>mission_in_progress := False\<rparr>)
       | Inl e \<Rightarrow> (Inl (MissionFailed e),
                   (set_mission ''error'' (PErr e) (set_mission ''status'' (PStr ''failed'') s1))
                     \<lparr>mission_in_progress := False\<rparr>))"
    using h run
    by (simp add: execute_mission_def accepted_def Let_def split: sum.splits)
  have final: "sent (drone ?final) = sent (drone s1)"
    unfolding unfold by (simp add: set_mission_def split: sum.splits)
  from pipeline_trace [OF run] obtain tr where
    "sent (drone s1) = sent (drone ?s0) @ tr \<and> prefix tr (flight_plan locs location_data []) \<and>
     (r1 = Inr () \<longrightarrow> tr = flight_plan locs location_data [])" ..
  then have tr: "sent (drone s1) = sent (drone ?s0) @ tr"
    "prefix tr (flight_plan locs location_data [])"
    "r1 = Inr () \<longrightarrow> tr = flight_plan locs location_data []"
    by simp_all
  have "sent (drone ?s0) = sent (drone s)"
    by (simp add: accepted_def)
  with tr(1) final have since: "sent_since s ?final = tr"
    by (simp add: sent_since_def)
  have completed: "sent_since s ?final = flight_plan locs location_data [] \<and>
      (\<exists>p. path location_data = Some p) \<and>
      (\<exists>home rp. locs ''home'' = Some home \<and> return_path home = Some rp)"
    if "fst (execute_mission locs now location_id s) = Inr m" for m
  proof -
    from that have r1: "r1 = Inr ()"
      unfolding unfold by (cases r1) simp_all
    with run have ok: "pipeline locs location_data ?s0 = (Inr (), s1)" by simp
    from ok obtain p s3 where p: "path location_data = Some p"
      and home: "return_home locs s3 = (Inr (), s1)"
      by (rule pipeline_success)
    from home have "\<exists>home rp. locs ''home'' = Some home \<and> return_path home = Some rp"
      by (cases rule: return_home_cases) auto
    with p r1 tr(3) since show ?thesis by simp
  qed
  have "(\<forall>c \<in> set []. \<exists>d. c = Arg d 20) \<and>
      prefix (sent_since s ?final) (flight_plan locs location_data []) \<and>
      (\<forall>m. fst (execute_mission locs now location_id s) = Inr m \<longrightarrow>
         sent_since s ?final = flight_plan locs location_data [] \<and>
         (\<exists>p. path location_data = Some p) \<and>
         (\<exists>home rp. locs ''home'' = Some home \<and> return_path home = Some rp))"
    using since tr(2) completed by simp
  then show "\<exists>cs. (\<forall>c \<in> set cs. \<exists>d. c = Arg d 20) \<and>
         prefix (sent_since s ?final) (flight_plan locs location_data cs) \<and>
         (\<forall>m. fst (execute_mission locs now location_id s) = Inr m \<longrightarrow>
            sent_since s ?final = flight_plan locs location_data cs \<and>
            (\<exists>p. path location_data = Some p) \<and>
            (\<exists>home rp. locs ''home'' = Some home \<and> return_path home = Some rp))"
    by (intro exI)
qed

theorem execute_mission_legs_witness:
  "(\<exists>cs. sent_since ready (snd (execute_mission table 0 ''A'' ready)) =
      [Plain ''takeoff'', Arg ''up'' 100, Arg ''forward'' 100, Arg ''left'' 200] @ cs @
      [Plain ''land'']) \<and>
   fst (execute_mission table 0 ''A'' hovering) = Inl (MissionFailed FailedToAlign) \<and>
   sent_since hovering (snd (execute_mission table 0 ''A'' hovering)) =
      [Plain ''takeoff'', Arg ''up'' 100, Arg ''forward'' 100, Arg ''left'' 200] \<and>
   (\<exists>cs. prefix (sent_since hovering (snd (execute_mission table 0 ''A'' hovering)))
      ([Plain ''takeoff'', Arg ''up'' 100, Arg ''forward'' 100, Arg ''left'' 200] @ cs @
       [Plain ''land'']))"
proof -
  let ?A = "\<lparr> path = Some [move ''forward'' 1], capture_points = None,
              return_path = Some [move ''back'' 1], other_keys = [] \<rparr>"
  let ?m = "Some ((new_mission ''A'' 0)(''status'' \<mapsto> PStr ''completed''))"
  have plan: "flight_plan table ?A cs =
      [Plain ''takeoff'', Arg ''up'' 100, Arg ''forward'' 100, Arg ''left'' 200] @ cs @
      [Plain ''land'']" for cs
    by (simp add: flight_plan_def home_return_path_def table_def move_def command_of_def)
  have ok: "fst (execute_mission table 0 ''A'' ready) = Inr ?m"
    by (simp add: ready_def run_defs)
  have failed: "fst (execute_mission table 0 ''A'' hovering) = Inl (MissionFailed FailedToAlign)"
    "sent_since hovering (snd (execute_mission table 0 ''A'' hovering)) =
       [Plain ''takeoff'', Arg ''up'' 100, Arg ''forward'' 100, Arg ''left'' 200]"
    by (simp_all add: hovering_def small_centred_def sent_since_def run_defs)
  have h1: "\<not> mission_in_progress ready \<and> table ''A'' = Some ?A \<and> \<not> falsy ?A"
    by (simp add: ready_def idle_def table_def falsy_def)
  have h2: "\<not> mission_in_progress hovering \<and> table ''A'' = Some ?A \<and> \<not> falsy ?A"
    by (simp add: hovering_def idle_def table_def falsy_def)
  from execute_mission_legs [where s = ready and locs = table and now = 0
      and location_id = "''A''", THEN spec, THEN mp, OF h1] ok
  have a: "\<exists>cs. sent_since ready (snd (execute_mission table 0 ''A'' ready)) =
      flight_plan table ?A cs"
    by blast
  from execute_mission_legs [where s = hovering and locs = table and now = 0
      and location_id = "''A''", THEN spec, THEN mp, OF h2]
  have b: "\<exists>cs. prefix (sent_since hovering (snd (execute_mission table 0 ''A'' hovering)))
      (flight_plan table ?A cs)"
    by blast
  from a b failed show ?thesis
    unfolding plan by simp
qed

end
